theory Spec2Isabelle
  imports Main
begin

section \<open>JavaScript values used by the date utilities\<close>

text \<open>
  A JavaScript call either returns a value or throws. The only value the source throws
  is \<^verbatim>\<open>new Error('Not implemented')\<close>; the specification names a second kind of
  error, \<open>InvalidArgument\<close>, which no path of the source constructs. A call's outcome is
  \<open>Inl\<close> of the thrown value or \<open>Inr\<close> of the returned one.
\<close>

datatype js_error = Error string | InvalidArgument

text \<open>
  Every Number the modelled functions handle is an integer or \<open>NaN\<close>: \<open>None\<close> is
  \<open>NaN\<close>. A Date object is its time value (milliseconds since the epoch, UTC), or
  \<open>NaN\<close> for an Invalid Date. The integers involved stay far below \<open>2^53\<close>, so the
  double arithmetic of the engine is exact on them.
\<close>

type_synonym Number = "int option"
type_synonym Date = "int option"

definition Number_add :: "Number \<Rightarrow> int \<Rightarrow> Number" where
  "Number_add x k = map_option (\<lambda>v. v + k) x"

definition Number_sub :: "Number \<Rightarrow> int \<Rightarrow> Number" where
  "Number_sub x k = map_option (\<lambda>v. v - k) x"

text \<open>Comparisons against a literal; a comparison with \<open>NaN\<close> is false.\<close>

definition Number_ge :: "Number \<Rightarrow> int \<Rightarrow> bool" where
  "Number_ge x k = (case x of None \<Rightarrow> False | Some v \<Rightarrow> v \<ge> k)"

definition Number_gt :: "Number \<Rightarrow> int \<Rightarrow> bool" where
  "Number_gt x k = (case x of None \<Rightarrow> False | Some v \<Rightarrow> v > k)"

definition Number_lt :: "Number \<Rightarrow> int \<Rightarrow> bool" where
  "Number_lt x k = (case x of None \<Rightarrow> False | Some v \<Rightarrow> v < k)"

text \<open>\<^verbatim>\<open>a >= b\<close> on two Date objects compares their time values.\<close>

definition Date_ge :: "Date \<Rightarrow> Date \<Rightarrow> bool" where
  "Date_ge a b = (case (a, b) of (Some x, Some y) \<Rightarrow> x \<ge> y | _ \<Rightarrow> False)"

text \<open>Number to String, as a template literal does it: decimal digits, a sign, or NaN.\<close>

definition digit_char :: "nat \<Rightarrow> char" where
  "digit_char d = ''0123456789'' ! d"

fun string_of_nat :: "nat \<Rightarrow> string" where
  "string_of_nat n =
     (if n < 10 then [digit_char n] else string_of_nat (n div 10) @ [digit_char (n mod 10)])"

declare string_of_nat.simps [simp del]

definition Number_toString :: "Number \<Rightarrow> string" where
  "Number_toString x =
     (case x of None \<Rightarrow> ''NaN''
      | Some v \<Rightarrow> if v < 0 then ''-'' @ string_of_nat (nat (- v)) else string_of_nat (nat v))"

section \<open>Time values (ECMA-262, Date objects)\<close>

definition msPerDay :: int where "msPerDay = 86400000"
definition msPerHour :: int where "msPerHour = 3600000"
definition msPerMinute :: int where "msPerMinute = 60000"
definition msPerSecond :: int where "msPerSecond = 1000"

definition Day :: "int \<Rightarrow> int" where
  "Day t = t div msPerDay"

definition TimeWithinDay :: "int \<Rightarrow> int" where
  "TimeWithinDay t = t mod msPerDay"

definition DaysInYear :: "int \<Rightarrow> int" where
  "DaysInYear y =
     (if y mod 4 \<noteq> 0 then 365
      else if y mod 100 \<noteq> 0 then 366
      else if y mod 400 \<noteq> 0 then 365
      else 366)"

definition DayFromYear :: "int \<Rightarrow> int" where
  "DayFromYear y =
     365 * (y - 1970) + (y - 1969) div 4 - (y - 1901) div 100 + (y - 1601) div 400"

definition TimeFromYear :: "int \<Rightarrow> int" where
  "TimeFromYear y = msPerDay * DayFromYear y"

text \<open>
  ECMA-262 specifies \<open>YearFromTime t\<close> as the largest year \<open>y\<close> with
  \<open>TimeFromYear y \<le> t\<close>. The executable form below starts from the estimate given by
  the mean length of a Gregorian year and corrects it by at most one year; lemma
  \<open>YearFromTime_spec\<close> shows that it meets the specification.
\<close>

definition YearFromTime :: "int \<Rightarrow> int" where
  "YearFromTime t =
     (let d = Day t; y0 = 1970 + (400 * d) div 146097
      in if d < DayFromYear y0 then y0 - 1
         else if DayFromYear (y0 + 1) \<le> d then y0 + 1
         else y0)"

definition InLeapYear :: "int \<Rightarrow> int" where
  "InLeapYear t = (if DaysInYear (YearFromTime t) = 365 then 0 else 1)"

definition DayWithinYear :: "int \<Rightarrow> int" where
  "DayWithinYear t = Day t - DayFromYear (YearFromTime t)"

definition MonthFromTime :: "int \<Rightarrow> int" where
  "MonthFromTime t =
     (let d = DayWithinYear t; l = InLeapYear t
      in if d < 31 then 0
         else if d < 59 + l then 1
         else if d < 90 + l then 2
         else if d < 120 + l then 3
         else if d < 151 + l then 4
         else if d < 181 + l then 5
         else if d < 212 + l then 6
         else if d < 243 + l then 7
         else if d < 273 + l then 8
         else if d < 304 + l then 9
         else if d < 334 + l then 10
         else 11)"

definition DateFromTime :: "int \<Rightarrow> int" where
  "DateFromTime t =
     (let d = DayWithinYear t; l = InLeapYear t; m = MonthFromTime t
      in if m = 0 then d + 1
         else if m = 1 then d - 30
         else if m = 2 then d - 58 - l
         else if m = 3 then d - 89 - l
         else if m = 4 then d - 119 - l
         else if m = 5 then d - 150 - l
         else if m = 6 then d - 180 - l
         else if m = 7 then d - 211 - l
         else if m = 8 then d - 242 - l
         else if m = 9 then d - 272 - l
         else if m = 10 then d - 303 - l
         else d - 333 - l)"

definition WeekDay :: "int \<Rightarrow> int" where
  "WeekDay t = (Day t + 4) mod 7"

definition HourFromTime :: "int \<Rightarrow> int" where
  "HourFromTime t = (t div msPerHour) mod 24"

definition MinFromTime :: "int \<Rightarrow> int" where
  "MinFromTime t = (t div msPerMinute) mod 60"

definition SecFromTime :: "int \<Rightarrow> int" where
  "SecFromTime t = (t div msPerSecond) mod 60"

definition MakeTime :: "int \<Rightarrow> int \<Rightarrow> int \<Rightarrow> int \<Rightarrow> int" where
  "MakeTime hour minute sec ms =
     hour * msPerHour + minute * msPerMinute + sec * msPerSecond + ms"

text \<open>
  The day within the year on which month \<open>mn\<close> (0 to 11) starts; \<open>l\<close> is 1 in a leap
  year. These are the boundaries of \<open>MonthFromTime\<close>.
\<close>

definition MonthStartDay :: "int \<Rightarrow> int \<Rightarrow> int" where
  "MonthStartDay mn l =
     (if mn = 0 then 0
      else if mn = 1 then 31
      else if mn = 2 then 59 + l
      else if mn = 3 then 90 + l
      else if mn = 4 then 120 + l
      else if mn = 5 then 151 + l
      else if mn = 6 then 181 + l
      else if mn = 7 then 212 + l
      else if mn = 8 then 243 + l
      else if mn = 9 then 273 + l
      else if mn = 10 then 304 + l
      else 334 + l)"

text \<open>
  \<open>MakeDay\<close> carries a month outside 0 to 11 into the year and lets the day of the month
  run over: it is the day number of the first of the month, plus \<open>date - 1\<close>. ECMA-262
  asks for the first of the month as a time value \<open>t\<close> with \<open>YearFromTime t\<close>,
  \<open>MonthFromTime t\<close> and \<open>DateFromTime t = 1\<close> as given; lemma \<open>MakeDay_civil\<close> shows
  that the day computed here is that one. Every result passes through \<open>TimeClip\<close>, which
  turns a day outside the range of Date into \<open>NaN\<close>.
\<close>

definition MakeDay :: "int \<Rightarrow> int \<Rightarrow> int \<Rightarrow> int" where
  "MakeDay year month date =
     (let ym = year + month div 12; mn = month mod 12
      in DayFromYear ym + MonthStartDay mn (DaysInYear ym - 365) + date - 1)"

definition MakeDate :: "int \<Rightarrow> int \<Rightarrow> int" where
  "MakeDate day time = day * msPerDay + time"

definition MakeFullYear :: "int \<Rightarrow> int" where
  "MakeFullYear year = (if 0 \<le> year \<and> year \<le> 99 then 1900 + year else year)"

definition TimeClip :: "int \<Rightarrow> Date" where
  "TimeClip time = (if \<bar>time\<bar> > 8640000000000000 then None else Some time)"

text \<open>The host runs in UTC: local time and UTC coincide.\<close>

definition LocalTime :: "int \<Rightarrow> int" where
  "LocalTime t = t"

definition UTC :: "int \<Rightarrow> int" where
  "UTC t = t"

section \<open>Date objects\<close>

text \<open>\<^verbatim>\<open>new Date(year, month, date)\<close>\<close>

definition Date_of_ymd :: "int \<Rightarrow> int \<Rightarrow> int \<Rightarrow> Date" where
  "Date_of_ymd year month date =
     TimeClip (UTC (MakeDate (MakeDay (MakeFullYear year) month date) (MakeTime 0 0 0 0)))"

definition getDay :: "Date \<Rightarrow> Number" where
  "getDay d = map_option (\<lambda>t. WeekDay (LocalTime t)) d"

definition getMonth :: "Date \<Rightarrow> Number" where
  "getMonth d = map_option (\<lambda>t. MonthFromTime (LocalTime t)) d"

definition getDate :: "Date \<Rightarrow> Number" where
  "getDate d = map_option (\<lambda>t. DateFromTime (LocalTime t)) d"

definition getUTCFullYear :: "Date \<Rightarrow> Number" where
  "getUTCFullYear d = map_option YearFromTime d"

definition getUTCMonth :: "Date \<Rightarrow> Number" where
  "getUTCMonth d = map_option MonthFromTime d"

definition getUTCDate :: "Date \<Rightarrow> Number" where
  "getUTCDate d = map_option DateFromTime d"

definition getUTCHours :: "Date \<Rightarrow> Number" where
  "getUTCHours d = map_option HourFromTime d"

definition getUTCMinutes :: "Date \<Rightarrow> Number" where
  "getUTCMinutes d = map_option MinFromTime d"

definition getUTCSeconds :: "Date \<Rightarrow> Number" where
  "getUTCSeconds d = map_option SecFromTime d"

text \<open>
  The setters mutate the Date object; here each returns the object's new time value.
\<close>

definition setDate :: "Date \<Rightarrow> int \<Rightarrow> Date" where
  "setDate d date =
     (case d of None \<Rightarrow> None
      | Some tv \<Rightarrow>
          (let t = LocalTime tv;
               newDate = MakeDate (MakeDay (YearFromTime t) (MonthFromTime t) date) (TimeWithinDay t)
           in TimeClip (UTC newDate)))"

definition setUTCDate :: "Date \<Rightarrow> int \<Rightarrow> Date" where
  "setUTCDate d date =
     (case d of None \<Rightarrow> None
      | Some t \<Rightarrow>
          TimeClip (MakeDate (MakeDay (YearFromTime t) (MonthFromTime t) date) (TimeWithinDay t)))"

definition setMonth :: "Date \<Rightarrow> Number \<Rightarrow> Date" where
  "setMonth d month =
     (case d of None \<Rightarrow> None
      | Some tv \<Rightarrow>
          (case month of None \<Rightarrow> None
           | Some m \<Rightarrow>
               (let t = LocalTime tv;
                    newDate = MakeDate (MakeDay (YearFromTime t) m (DateFromTime t)) (TimeWithinDay t)
                in TimeClip (UTC newDate))))"

text \<open>\<^verbatim>\<open>new Date(date)\<close> for a Date object \<^verbatim>\<open>date\<close>: a fresh object with the same time value.\<close>

definition Date_of_Date :: "Date \<Rightarrow> Date" where
  "Date_of_Date d = d"

text \<open>
  \<^verbatim>\<open>new Date(string)\<close> for the one string format ECMA-262 fixes, in the full form
  \<^verbatim>\<open>YYYY-MM-DDTHH:mm:ss.sssZ\<close> that the source documents for its ISO 8601 parameters.
  Any other string is left to the host by ECMA-262; the functions below therefore take the
  host's parser as a parameter, and \<open>Date_parse_iso\<close> (Invalid Date outside the full
  form) is supplied where a documented example is evaluated.
\<close>

definition digit_val :: "char \<Rightarrow> int option" where
  "digit_val c =
     (let n = (of_char c :: nat) in if 48 \<le> n \<and> n \<le> 57 then Some (int n - 48) else None)"

fun digits_val :: "int \<Rightarrow> string \<Rightarrow> int option" where
  "digits_val acc [] = Some acc"
| "digits_val acc (c # cs) =
     (case digit_val c of None \<Rightarrow> None | Some v \<Rightarrow> digits_val (10 * acc + v) cs)"

definition DaysInMonth :: "int \<Rightarrow> int \<Rightarrow> int" where
  "DaysInMonth mn l =
     (if mn = 1 then 28 + l
      else if mn = 3 \<or> mn = 5 \<or> mn = 8 \<or> mn = 10 then 30
      else 31)"

definition Date_parse_iso :: "string \<Rightarrow> Date" where
  "Date_parse_iso s =
     (if length s = 24 \<and> s ! 4 = CHR ''-'' \<and> s ! 7 = CHR ''-'' \<and> s ! 10 = CHR ''T''
         \<and> s ! 13 = CHR '':'' \<and> s ! 16 = CHR '':'' \<and> s ! 19 = CHR ''.'' \<and> s ! 23 = CHR ''Z''
      then
        (case (digits_val 0 (take 4 s), digits_val 0 (take 2 (drop 5 s)),
               digits_val 0 (take 2 (drop 8 s)), digits_val 0 (take 2 (drop 11 s)),
               digits_val 0 (take 2 (drop 14 s)), digits_val 0 (take 2 (drop 17 s)),
               digits_val 0 (take 3 (drop 20 s))) of
           (Some y, Some mo, Some d, Some h, Some mi, Some sec, Some ms) \<Rightarrow>
             if 1 \<le> mo \<and> mo \<le> 12 \<and> 1 \<le> d \<and> d \<le> DaysInMonth (mo - 1) (DaysInYear y - 365)
                \<and> (h \<le> 23 \<or> (h = 24 \<and> mi = 0 \<and> sec = 0 \<and> ms = 0)) \<and> mi \<le> 59 \<and> sec \<le> 59
             then TimeClip (MakeDate (MakeDay y (mo - 1) d) (MakeTime h mi sec ms))
             else None
         | _ \<Rightarrow> None)
      else None)"

section \<open>The functions of \<^verbatim>\<open>core-js-dates-tasks.js\<close>\<close>

text \<open>
  \<^verbatim>\<open>
  function getDayName(date) {
    const days = ['Sunday', 'Monday', 'Tuesday', 'Wensday', 'Thursday', 'Friday', 'Saturday'];
    return days[new Date(date).getDay()];
  }
  \<close>
  Indexing the array with \<open>NaN\<close> gives \<^verbatim>\<open>undefined\<close>, here \<open>None\<close>.
\<close>

definition days :: "string list" where
  "days = [''Sunday'', ''Monday'', ''Tuesday'', ''Wensday'', ''Thursday'', ''Friday'', ''Saturday'']"

definition getDayName :: "(string \<Rightarrow> Date) \<Rightarrow> string \<Rightarrow> string option" where
  "getDayName Date_parse date =
     (case getDay (Date_parse date) of
        None \<Rightarrow> None
      | Some i \<Rightarrow> if 0 \<le> i \<and> i < int (length days) then Some (days ! nat i) else None)"

text \<open>
  \<^verbatim>\<open>
  function getCountDaysInMonth(month, year) {
    const date = new Date(year, month + 1, 1);
    date.setUTCDate(0);
    return date.getUTCDate();
  }
  \<close>
\<close>

definition getCountDaysInMonth :: "int \<Rightarrow> int \<Rightarrow> Number" where
  "getCountDaysInMonth month year =
     (let date = Date_of_ymd year (month + 1) 1;
          date = setUTCDate date 0
      in getUTCDate date)"

text \<open>
  \<^verbatim>\<open>
  function formatDate(date) {
    const dateFormat = new Date(date);
    const year = dateFormat.getUTCFullYear();
    const month = dateFormat.getUTCMonth() + 1;
    const data = dateFormat.getUTCDate();
    const timeDay = dateFormat.getUTCHours() >= 12 ? 'PM' : 'AM';
    const hours = dateFormat.getUTCHours() > 12
        ? dateFormat.getUTCHours() - 12 : dateFormat.getUTCHours();
    const minutes = dateFormat.getUTCMinutes() < 10
        ? `0${dateFormat.getUTCMinutes()}` : dateFormat.getUTCMinutes();
    const seconds = dateFormat.getUTCSeconds() < 10
        ? `0${dateFormat.getUTCSeconds()}` : dateFormat.getUTCSeconds();
    return `${month}/${data}/${year}, ${hours}:${minutes}:${seconds} ${timeDay}`;
  }
  \<close>
\<close>

definition formatDate :: "(string \<Rightarrow> Date) \<Rightarrow> string \<Rightarrow> string" where
  "formatDate Date_parse date =
     (let dateFormat = Date_parse date;
          year = getUTCFullYear dateFormat;
          month = Number_add (getUTCMonth dateFormat) 1;
          data = getUTCDate dateFormat;
          timeDay = (if Number_ge (getUTCHours dateFormat) 12 then ''PM'' else ''AM'');
          hours = (if Number_gt (getUTCHours dateFormat) 12
                   then Number_sub (getUTCHours dateFormat) 12
                   else getUTCHours dateFormat);
          minutes = (if Number_lt (getUTCMinutes dateFormat) 10
                     then ''0'' @ Number_toString (getUTCMinutes dateFormat)
                     else Number_toString (getUTCMinutes dateFormat));
          seconds = (if Number_lt (getUTCSeconds dateFormat) 10
                     then ''0'' @ Number_toString (getUTCSeconds dateFormat)
                     else Number_toString (getUTCSeconds dateFormat))
      in Number_toString month @ ''/'' @ Number_toString data @ ''/'' @ Number_toString year
         @ '', '' @ Number_toString hours @ '':'' @ minutes @ '':'' @ seconds @ '' '' @ timeDay)"

text \<open>
  \<^verbatim>\<open>
  function getNextFridayThe13th(date) {
    const dataCheck = new Date(date);
    dataCheck.setDate(13);
    if (dataCheck.getDay() === 5 && dataCheck >= date) {
      return dataCheck;
    }
    dataCheck.setMonth(dataCheck.getMonth() + 1);
    return getNextFridayThe13th(dataCheck);
  }
  \<close>
  The first argument of the model bounds the depth of the recursion: it is the number of
  recursive calls the engine's call stack still admits. \<open>None\<close> is the engine giving up
  on a recursion deeper than that; a search that yields \<open>None\<close> for every bound never
  returns.
\<close>

fun getNextFridayThe13th :: "nat \<Rightarrow> Date \<Rightarrow> Date option" where
  "getNextFridayThe13th n date =
     (let dataCheck = Date_of_Date date;
          dataCheck = setDate dataCheck 13
      in if getDay dataCheck = Some 5 \<and> Date_ge dataCheck date then Some dataCheck
         else (let dataCheck = setMonth dataCheck (Number_add (getMonth dataCheck) 1)
               in case n of 0 \<Rightarrow> None | Suc k \<Rightarrow> getNextFridayThe13th k dataCheck))"

declare getNextFridayThe13th.simps [simp del]

text \<open>
  The first and the last time value from which the search returns (lemma
  \<open>getNextFridayThe13th_never_outside\<close>): the start of 1 May -271821, the first month
  whose 13th is a Date, and the last millisecond of 13 June 275760, the last Friday the
  13th that is a Date.
\<close>

definition earliest_searchable :: int where
  "earliest_searchable = MakeDate (MakeDay (- 271821) 4 1) 0"

definition latest_searchable :: int where
  "latest_searchable = MakeDate (MakeDay 275760 5 13) (msPerDay - 1)"

text \<open>The \<^verbatim>\<open>DatePeriod\<close> typedef of the source: two strings in 'DD-MM-YYYY' form.\<close>

record DatePeriod =
  start :: string
  end' :: string

text \<open>
  \<^verbatim>\<open>
  function getWorkSchedule(/* period, countWorkDays, countOffDays */) {
    throw new Error('Not implemented');
  }
  \<close>
  The exported function declares no parameter; whatever a caller passes is ignored. The
  loop that follows it in the file is commented out and is no code.
\<close>

definition getWorkSchedule :: "DatePeriod \<Rightarrow> int \<Rightarrow> int \<Rightarrow> js_error + string list" where
  "getWorkSchedule period countWorkDays countOffDays = Inl (Error ''Not implemented'')"

text \<open>
  The same function as a step on the state a call can reach. That state is the module's
  and the host's variables, \<open>globals\<close> (of any type: the source declares no module
  variable), and the heap of Error objects, the only objects the body creates. An object
  is referred to by its address, its index in the heap.
  \<^verbatim>\<open>new Error(msg)\<close> allocates a fresh object named 'Error' that carries the message;
  \<^verbatim>\<open>throw\<close> ends the call with a reference to it. The body reads no variable and no
  object, and writes nothing but that allocation.
\<close>

record error_object =
  err_name :: string
  err_message :: string

record 'g js_env =
  globals :: 'g
  heap :: "error_object list"

definition new_Error :: "string \<Rightarrow> 'g js_env \<Rightarrow> nat \<times> 'g js_env" where
  "new_Error msg env =
     (length (heap env),
      env\<lparr>heap := heap env @ [\<lparr>err_name = ''Error'', err_message = msg\<rparr>]\<rparr>)"

definition getWorkSchedule_call ::
  "'g js_env \<Rightarrow> DatePeriod \<Rightarrow> int \<Rightarrow> int \<Rightarrow> (nat + string list) \<times> 'g js_env" where
  "getWorkSchedule_call env period countWorkDays countOffDays =
     (let (e, env') = new_Error ''Not implemented'' env in (Inl e, env'))"

text \<open>
  What a caller observes of an outcome: the returned sequence, or the name and message of
  the thrown object (\<open>None\<close> for a reference to no object).
\<close>

definition observed :: "'g js_env \<Rightarrow> nat + string list \<Rightarrow> error_object option + string list" where
  "observed env r =
     (case r of
        Inl e \<Rightarrow> Inl (if e < length (heap env) then Some (heap env ! e) else None)
      | Inr xs \<Rightarrow> Inr xs)"

section \<open>Notions of the specification\<close>

text \<open>The English names of the days of the week, Sunday first.\<close>

definition english_day_names :: "string list" where
  "english_day_names =
     [''Sunday'', ''Monday'', ''Tuesday'', ''Wednesday'', ''Thursday'', ''Friday'', ''Saturday'']"

text \<open>The length of calendar month \<open>month\<close> (1 for January) of \<open>year\<close>, Gregorian.\<close>

definition leap_year :: "int \<Rightarrow> bool" where
  "leap_year year = (year mod 4 = 0 \<and> (year mod 100 \<noteq> 0 \<or> year mod 400 = 0))"

definition days_in_calendar_month :: "int \<Rightarrow> int \<Rightarrow> int" where
  "days_in_calendar_month month year =
     (if month = 2 then (if leap_year year then 29 else 28)
      else if month = 4 \<or> month = 6 \<or> month = 9 \<or> month = 11 then 30
      else 31)"

text \<open>
  A well-formed endpoint of a \<^verbatim>\<open>DatePeriod\<close>: 'DD-MM-YYYY' naming a day that exists.
  The arguments of the schedule generator are valid when both endpoints are well formed,
  \<open>workLength \<ge> 1\<close> and \<open>offLength \<ge> 0\<close>.
\<close>

definition well_formed_date :: "string \<Rightarrow> bool" where
  "well_formed_date s =
     (length s = 10 \<and> s ! 2 = CHR ''-'' \<and> s ! 5 = CHR ''-'' \<and>
      (case (digits_val 0 (take 2 s), digits_val 0 (take 2 (drop 3 s)), digits_val 0 (drop 6 s)) of
         (Some d, Some m, Some y) \<Rightarrow>
           1 \<le> m \<and> m \<le> 12 \<and> 1 \<le> d \<and> d \<le> days_in_calendar_month m y
       | _ \<Rightarrow> False))"

definition valid_arguments :: "DatePeriod \<Rightarrow> int \<Rightarrow> int \<Rightarrow> bool" where
  "valid_arguments period workLength offLength =
     (well_formed_date (start period) \<and> well_formed_date (end' period)
      \<and> 1 \<le> workLength \<and> 0 \<le> offLength)"

text \<open>
  Reading a string formatted as 'M/D/YYYY, h:mm:ss a': the hour is what stands between
  the comma-and-space and the first colon, the day period what follows the last space.
\<close>

definition time_of_formatted :: "string \<Rightarrow> string" where
  "time_of_formatted s = drop 2 (dropWhile (\<lambda>c. c \<noteq> CHR '','') s)"

definition hour_field :: "string \<Rightarrow> string" where
  "hour_field s = takeWhile (\<lambda>c. c \<noteq> CHR '':'') (time_of_formatted s)"

definition day_period_field :: "string \<Rightarrow> string" where
  "day_period_field s = drop 1 (dropWhile (\<lambda>c. c \<noteq> CHR '' '') (time_of_formatted s))"

section \<open>Auxiliary definitions of the proofs\<close>

text \<open>
  The 13th of month \<open>j\<close>, counted from January of a year that starts on weekday-offset
  \<open>w\<close>, as a day offset: \<open>l\<close> and \<open>l'\<close> are the leap flags of that year and of the next.
\<close>

definition offset13 :: "int \<Rightarrow> int \<Rightarrow> int \<Rightarrow> int" where
  "offset13 l l' j =
     (if j < 12 then MonthStartDay j l else 365 + l + MonthStartDay (j - 12) l') + 12"

definition friday_within :: "int \<Rightarrow> int \<Rightarrow> int \<Rightarrow> int \<Rightarrow> bool" where
  "friday_within w l l' m =
     list_ex (\<lambda>k. m + k < 24 \<and> (w + offset13 l l' (m + k) + 4) mod 7 = 5)
       [1, 2, 3, 4, 5, 6, 7, 8, 9, 10, 11, 12, 13, 14]"

definition friday_table :: bool where
  "friday_table =
     list_all (\<lambda>w. list_all (\<lambda>l. list_all (\<lambda>l'. list_all (\<lambda>m. friday_within w l l' m)
        [0, 1, 2, 3, 4, 5, 6, 7, 8, 9, 10, 11]) [0, 1]) [0, 1]) [0, 1, 2, 3, 4, 5, 6]"

text \<open>A string free of the separators of the formatted date: comma, colon and space.\<close>

definition plain :: "string \<Rightarrow> bool" where
  "plain s = (\<forall>c\<in>set s. c \<noteq> CHR '','' \<and> c \<noteq> CHR '':'' \<and> c \<noteq> CHR '' '')"

section \<open>The year of a time value\<close>

lemma div_bounds4: "4 * ((a::int) div 4) \<le> a \<and> a < 4 * (a div 4) + 4"
  by presburger

lemma div_bounds100: "100 * ((a::int) div 100) \<le> a \<and> a < 100 * (a div 100) + 100"
  by presburger

lemma div_bounds400: "400 * ((a::int) div 400) \<le> a \<and> a < 400 * (a div 400) + 400"
  by presburger

lemma div_bounds146097:
  "146097 * ((a::int) div 146097) \<le> a \<and> a < 146097 * (a div 146097) + 146097"
  by presburger

text \<open>\<open>DayFromYear\<close> stays within two days of the mean Gregorian year.\<close>

lemma DayFromYear_bounds:
  "146097 * (y - 1970) - 506 \<le> 400 * DayFromYear y
   \<and> 400 * DayFromYear y \<le> 146097 * (y - 1970) + 589"
proof -
  define q4 where "q4 = (y - 1969) div 4"
  define q100 where "q100 = (y - 1901) div 100"
  define q400 where "q400 = (y - 1601) div 400"
  have b4: "4 * q4 \<le> y - 1969 \<and> y - 1969 < 4 * q4 + 4"
    unfolding q4_def by (rule div_bounds4)
  have b100: "100 * q100 \<le> y - 1901 \<and> y - 1901 < 100 * q100 + 100"
    unfolding q100_def by (rule div_bounds100)
  have b400: "400 * q400 \<le> y - 1601 \<and> y - 1601 < 400 * q400 + 400"
    unfolding q400_def by (rule div_bounds400)
  have eq: "DayFromYear y = 365 * (y - 1970) + q4 - q100 + q400"
    by (simp add: DayFromYear_def q4_def q100_def q400_def)
  show ?thesis using b4 b100 b400 unfolding eq by auto
qed

lemma DayFromYear_est_lo: "DayFromYear (1970 + (400 * d) div 146097 - 1) \<le> d"
proof -
  define x where "x = (400 * d) div 146097"
  have bx: "146097 * x \<le> 400 * d \<and> 400 * d < 146097 * x + 146097"
    unfolding x_def by (rule div_bounds146097)
  have "400 * DayFromYear (1970 + x - 1) \<le> 146097 * ((1970 + x - 1) - 1970) + 589"
    using DayFromYear_bounds by blast
  then show ?thesis using bx unfolding x_def[symmetric] by auto
qed

lemma DayFromYear_est_hi: "d < DayFromYear (1970 + (400 * d) div 146097 + 2)"
proof -
  define x where "x = (400 * d) div 146097"
  have bx: "146097 * x \<le> 400 * d \<and> 400 * d < 146097 * x + 146097"
    unfolding x_def by (rule div_bounds146097)
  have "146097 * ((1970 + x + 2) - 1970) - 506 \<le> 400 * DayFromYear (1970 + x + 2)"
    using DayFromYear_bounds by blast
  then show ?thesis using bx unfolding x_def[symmetric] by auto
qed

lemma div_step:
  fixes a n :: int
  assumes "0 < n"
  shows "(a + 1) div n = a div n + (if (a + 1) mod n = 0 then 1 else 0)"
proof -
  define q where "q = a div n"
  define r where "r = a mod n"
  have a: "a = n * q + r" by (simp add: q_def r_def)
  have r: "0 \<le> r" "r < n" using assms by (simp_all add: r_def)
  show ?thesis
  proof (cases "r + 1 = n")
    case True
    then have e: "a + 1 = n * (q + 1) + 0" using a by (simp add: algebra_simps)
    have "(a + 1) div n = q + 1" using assms by (intro int_div_pos_eq[OF e]) simp_all
    moreover have "(a + 1) mod n = 0" using assms by (intro int_mod_pos_eq[OF e]) simp_all
    ultimately show ?thesis by (simp add: q_def)
  next
    case False
    then have lt: "r + 1 < n" using r by simp
    have e: "a + 1 = n * q + (r + 1)" using a by simp
    have "(a + 1) div n = q" using r lt by (intro int_div_pos_eq[OF e]) simp_all
    moreover have "(a + 1) mod n = r + 1" using r lt by (intro int_mod_pos_eq[OF e]) simp_all
    ultimately show ?thesis using r by (simp add: q_def)
  qed
qed

lemma mod_sub_mult: "((y::int) - k * n) mod n = y mod n"
  using mod_mult_self1[of y "- k" n] by simp

lemma step4: "((y::int) - 1968) div 4 = (y - 1969) div 4 + (if y mod 4 = 0 then 1 else 0)"
  using div_step[of 4 "y - 1969"] mod_sub_mult[of y 492 4] by simp

lemma step100:
  "((y::int) - 1900) div 100 = (y - 1901) div 100 + (if y mod 100 = 0 then 1 else 0)"
  using div_step[of 100 "y - 1901"] mod_sub_mult[of y 19 100] by simp

lemma step400:
  "((y::int) - 1600) div 400 = (y - 1601) div 400 + (if y mod 400 = 0 then 1 else 0)"
  using div_step[of 400 "y - 1601"] mod_sub_mult[of y 4 400] by simp

lemma mod400_100: "(y::int) mod 400 = 0 \<Longrightarrow> y mod 100 = 0"
proof -
  assume "y mod 400 = 0"
  then have "400 dvd y" by (simp add: mod_eq_0_iff_dvd)
  moreover have "(100::int) dvd 400" by simp
  ultimately have "100 dvd y" by (rule dvd_trans[rotated])
  then show ?thesis by (simp add: mod_eq_0_iff_dvd)
qed

lemma mod100_4: "(y::int) mod 100 = 0 \<Longrightarrow> y mod 4 = 0"
proof -
  assume "y mod 100 = 0"
  then have "100 dvd y" by (simp add: mod_eq_0_iff_dvd)
  moreover have "(4::int) dvd 100" by simp
  ultimately have "4 dvd y" by (rule dvd_trans[rotated])
  then show ?thesis by (simp add: mod_eq_0_iff_dvd)
qed

lemma DayFromYear_step: "DayFromYear (y + 1) = DayFromYear y + DaysInYear y"
proof -
  have a: "y + 1 - 1969 = y - 1968" "y + 1 - 1901 = y - 1900" "y + 1 - 1601 = y - 1600"
          "y + 1 - 1970 = (y - 1970) + 1"
    by simp_all
  show ?thesis
    unfolding DayFromYear_def DaysInYear_def a step4 step100 step400
    using mod400_100[of y] mod100_4[of y]
    by (auto simp: algebra_simps)
qed

lemma DaysInYear_cases: "DaysInYear y = 365 \<or> DaysInYear y = 366"
  by (simp add: DaysInYear_def)

lemma leap_flag_cases: "DaysInYear y - 365 = 0 \<or> DaysInYear y - 365 = 1"
  using DaysInYear_cases[of y] by auto

lemma DayFromYear_less_step: "DayFromYear y < DayFromYear (y + 1)"
  using DaysInYear_cases[of y] by (auto simp: DayFromYear_step)

lemma DayFromYear_mono_nat: "DayFromYear y \<le> DayFromYear (y + int n)"
proof (induction n)
  case 0
  then show ?case by simp
next
  case (Suc n)
  have "DayFromYear (y + int n) < DayFromYear ((y + int n) + 1)"
    by (rule DayFromYear_less_step)
  moreover have e: "y + int (Suc n) = (y + int n) + 1" by simp
  ultimately show ?case unfolding e using Suc by linarith
qed

lemma DayFromYear_mono: "a \<le> b \<Longrightarrow> DayFromYear a \<le> DayFromYear b"
  using DayFromYear_mono_nat[of a "nat (b - a)"] by simp

text \<open>
  The executable \<open>YearFromTime\<close> is the year ECMA-262 specifies: the day of \<open>t\<close> lies
  in it, and in no other year.
\<close>

lemma YearFromTime_spec:
  "DayFromYear (YearFromTime t) \<le> Day t \<and> Day t < DayFromYear (YearFromTime t + 1)"
proof -
  define d where "d = Day t"
  define y0 where "y0 = 1970 + (400 * d) div 146097"
  have lo: "DayFromYear (y0 - 1) \<le> d" unfolding y0_def by (rule DayFromYear_est_lo)
  have hi: "d < DayFromYear (y0 + 2)" unfolding y0_def by (rule DayFromYear_est_hi)
  have Y: "YearFromTime t =
     (if d < DayFromYear y0 then y0 - 1 else if DayFromYear (y0 + 1) \<le> d then y0 + 1 else y0)"
    by (simp add: YearFromTime_def Let_def d_def y0_def)
  have s: "y0 + 1 + 1 = y0 + 2" by simp
  show ?thesis unfolding Y d_def[symmetric] using lo hi by (auto simp: s)
qed

lemma YearFromTime_unique:
  assumes "DayFromYear y \<le> Day t" and "Day t < DayFromYear (y + 1)"
  shows "YearFromTime t = y"
proof (rule ccontr)
  assume ne: "YearFromTime t \<noteq> y"
  let ?Y = "YearFromTime t"
  have sp: "DayFromYear ?Y \<le> Day t" "Day t < DayFromYear (?Y + 1)"
    using YearFromTime_spec[of t] by simp_all
  show False
  proof (cases "?Y < y")
    case True
    then have "DayFromYear (?Y + 1) \<le> DayFromYear y" by (intro DayFromYear_mono) simp
    then show False using sp assms by simp
  next
    case False
    then have "y + 1 \<le> ?Y" using ne by simp
    then have "DayFromYear (y + 1) \<le> DayFromYear ?Y" by (rule DayFromYear_mono)
    then show False using sp assms by simp
  qed
qed

section \<open>Day, month and date of a time value built by \<open>MakeDay\<close>\<close>

lemma Day_MakeDate: "0 \<le> tw \<Longrightarrow> tw < msPerDay \<Longrightarrow> Day (MakeDate d tw) = d"
  by (simp add: Day_def MakeDate_def msPerDay_def)

lemma TimeWithinDay_MakeDate:
  "0 \<le> tw \<Longrightarrow> tw < msPerDay \<Longrightarrow> TimeWithinDay (MakeDate d tw) = tw"
  by (simp add: TimeWithinDay_def MakeDate_def msPerDay_def)

lemma TimeWithinDay_bounds: "0 \<le> TimeWithinDay t \<and> TimeWithinDay t < msPerDay"
  by (simp add: TimeWithinDay_def msPerDay_def)

lemma WeekDay_MakeDate:
  "0 \<le> tw \<Longrightarrow> tw < msPerDay \<Longrightarrow> WeekDay (MakeDate d tw) = (d + 4) mod 7"
  by (simp add: WeekDay_def Day_MakeDate)

lemma MonthFromTime_range: "0 \<le> MonthFromTime t \<and> MonthFromTime t \<le> 11"
  by (simp add: MonthFromTime_def Let_def)

lemma month_cases:
  "0 \<le> (m::int) \<Longrightarrow> m \<le> 11 \<Longrightarrow>
   m = 0 \<or> m = 1 \<or> m = 2 \<or> m = 3 \<or> m = 4 \<or> m = 5 \<or> m = 6 \<or> m = 7 \<or> m = 8 \<or> m = 9
   \<or> m = 10 \<or> m = 11"
  by arith

lemma day_in_year:
  assumes "0 \<le> k" and "k < DaysInYear y" and "Day t = DayFromYear y + k"
  shows "YearFromTime t = y" and "DayWithinYear t = k" and "InLeapYear t = DaysInYear y - 365"
proof -
  have "DayFromYear y \<le> Day t" using assms by simp
  moreover have "Day t < DayFromYear (y + 1)" using assms by (simp add: DayFromYear_step)
  ultimately show Y: "YearFromTime t = y" by (rule YearFromTime_unique)
  show "DayWithinYear t = k" using assms by (simp add: DayWithinYear_def Y)
  show "InLeapYear t = DaysInYear y - 365"
    using DaysInYear_cases[of y] by (auto simp: InLeapYear_def Y)
qed

lemma month_day_in_year:
  assumes "0 \<le> m" "m \<le> 11" "1 \<le> dt" "dt \<le> DaysInMonth m l" "l = 0 \<or> l = 1"
  shows "0 \<le> MonthStartDay m l + dt - 1 \<and> MonthStartDay m l + dt - 1 < 365 + l"
  using month_cases[OF assms(1,2)] assms(3,4,5)
  by (auto simp: MonthStartDay_def DaysInMonth_def)

lemma month_date_of_day_within_year:
  assumes "0 \<le> m" "m \<le> 11" "1 \<le> dt" "dt \<le> DaysInMonth m l" "l = 0 \<or> l = 1"
    and "DayWithinYear t = MonthStartDay m l + dt - 1" and "InLeapYear t = l"
  shows "MonthFromTime t = m \<and> DateFromTime t = dt"
proof -
  have M: "MonthFromTime t = m"
    using month_cases[OF assms(1,2)] assms(3,4,5)
    by (auto simp: MonthFromTime_def assms(6,7) MonthStartDay_def DaysInMonth_def)
  show ?thesis
    using month_cases[OF assms(1,2)] assms(3,4,5)
    by (auto simp: DateFromTime_def M assms(6,7) MonthStartDay_def DaysInMonth_def)
qed

lemma civil_of_MakeDay:
  assumes "0 \<le> m" "m \<le> 11" "1 \<le> dt" "dt \<le> DaysInMonth m (DaysInYear y - 365)"
    and "Day t = MakeDay y m dt"
  shows "YearFromTime t = y" and "MonthFromTime t = m" and "DateFromTime t = dt"
    and "DayFromYear y \<le> Day t" and "Day t < DayFromYear (y + 1)"
proof -
  let ?l = "DaysInYear y - 365"
  let ?k = "MonthStartDay m ?l + dt - 1"
  have l: "?l = 0 \<or> ?l = 1" by (rule leap_flag_cases)
  have md: "MakeDay y m dt = DayFromYear y + ?k"
    using assms(1,2) by (simp add: MakeDay_def Let_def)
  have k: "0 \<le> ?k \<and> ?k < 365 + ?l" by (rule month_day_in_year[OF assms(1-4) l])
  then have k1: "0 \<le> ?k" and k2: "?k < DaysInYear y" by simp_all
  have D: "Day t = DayFromYear y + ?k" using assms(5) md by simp
  show "YearFromTime t = y" by (rule day_in_year(1)[OF k1 k2 D])
  have dwy: "DayWithinYear t = ?k" by (rule day_in_year(2)[OF k1 k2 D])
  have ly: "InLeapYear t = ?l" by (rule day_in_year(3)[OF k1 k2 D])
  have "MonthFromTime t = m \<and> DateFromTime t = dt"
    by (rule month_date_of_day_within_year[OF assms(1-4) l dwy ly])
  then show "MonthFromTime t = m" and "DateFromTime t = dt" by simp_all
  show "DayFromYear y \<le> Day t" using D k1 by simp
  show "Day t < DayFromYear (y + 1)" using D k2 by (simp add: DayFromYear_step)
qed

lemma MakeDay_norm: "MakeDay Y j d = MakeDay (Y + j div 12) (j mod 12) d"
  by (simp add: MakeDay_def)

lemma MakeDay_succ_month: "MakeDay (Y + j div 12) (j mod 12 + 1) d = MakeDay Y (j + 1) d"
proof -
  have r: "0 \<le> j mod 12" "j mod 12 < 12" by simp_all
  have s: "(j + 1) div 12 = j div 12 + (if (j + 1) mod 12 = 0 then 1 else 0)"
    by (rule div_step) simp
  have e: "j + 1 = 12 * (j div 12) + (j mod 12 + 1)" by simp
  show ?thesis
  proof (cases "j mod 12 = 11")
    case True
    then have e': "j + 1 = 12 * (j div 12 + 1) + 0" using e by simp
    have "(j + 1) mod 12 = 0" by (intro int_mod_pos_eq[OF e']) simp_all
    then show ?thesis using True s by (simp add: MakeDay_def Let_def add.assoc)
  next
    case False
    then have lt: "j mod 12 + 1 < 12" using r by simp
    have m: "(j + 1) mod 12 = j mod 12 + 1"
      using r lt by (intro int_mod_pos_eq[OF e]) simp_all
    have d: "(j + 1) div 12 = j div 12"
      using r lt by (intro int_div_pos_eq[OF e]) simp_all
    have "(j mod 12 + 1) div 12 = 0" "(j mod 12 + 1) mod 12 = j mod 12 + 1"
      using r lt by simp_all
    then show ?thesis by (simp add: MakeDay_def m d)
  qed
qed

text \<open>
  A time value built from a year, any month index and a day that exists in that month
  reads back as that year (with the months carried), month and day.
\<close>

lemma MakeDay_civil:
  fixes Y j dt tw :: int
  defines "t \<equiv> MakeDate (MakeDay Y j dt) tw"
  assumes "0 \<le> tw" "tw < msPerDay"
    and "1 \<le> dt" "dt \<le> DaysInMonth (j mod 12) (DaysInYear (Y + j div 12) - 365)"
  shows "Day t = MakeDay Y j dt" and "TimeWithinDay t = tw"
    and "YearFromTime t = Y + j div 12" and "MonthFromTime t = j mod 12"
    and "DateFromTime t = dt"
    and "DayFromYear (Y + j div 12) \<le> Day t" and "Day t < DayFromYear (Y + j div 12 + 1)"
proof -
  show D: "Day t = MakeDay Y j dt" unfolding t_def by (rule Day_MakeDate[OF assms(2,3)])
  show "TimeWithinDay t = tw" unfolding t_def by (rule TimeWithinDay_MakeDate[OF assms(2,3)])
  have D': "Day t = MakeDay (Y + j div 12) (j mod 12) dt"
    using D MakeDay_norm[of Y j dt] by simp
  have m: "0 \<le> j mod 12" "j mod 12 \<le> 11" by simp_all
  show "YearFromTime t = Y + j div 12" by (rule civil_of_MakeDay(1)[OF m assms(4,5) D'])
  show "MonthFromTime t = j mod 12" by (rule civil_of_MakeDay(2)[OF m assms(4,5) D'])
  show "DateFromTime t = dt" by (rule civil_of_MakeDay(3)[OF m assms(4,5) D'])
  show "DayFromYear (Y + j div 12) \<le> Day t" by (rule civil_of_MakeDay(4)[OF m assms(4,5) D'])
  show "Day t < DayFromYear (Y + j div 12 + 1)" by (rule civil_of_MakeDay(5)[OF m assms(4,5) D'])
qed

section \<open>The range of time values\<close>

lemma TimeClip_Some: "\<bar>t\<bar> \<le> 8640000000000000 \<Longrightarrow> TimeClip t = Some t"
  by (simp add: TimeClip_def)

lemma DayFromYear_first: "DayFromYear (- 271820) = - 99999744"
  by (simp add: DayFromYear_def)

lemma DayFromYear_last: "DayFromYear 275760 = 99999744"
  by (simp add: DayFromYear_def)

lemma time_in_range:
  assumes "- 271820 \<le> y" "y \<le> 275759" "DayFromYear y \<le> Day t" "Day t < DayFromYear (y + 1)"
  shows "\<bar>t\<bar> \<le> 8640000000000000"
proof -
  have "DayFromYear (- 271820) \<le> DayFromYear y" using assms(1) by (rule DayFromYear_mono)
  then have lo: "- 99999744 \<le> Day t" using assms(3) by (simp add: DayFromYear_first)
  have "DayFromYear (y + 1) \<le> DayFromYear 275760" using assms(2) by (intro DayFromYear_mono) simp
  then have hi: "Day t < 99999744" using assms(4) by (simp add: DayFromYear_last)
  have t: "t = Day t * msPerDay + TimeWithinDay t" by (simp add: Day_def TimeWithinDay_def)
  have "- 99999744 * msPerDay \<le> t"
    using lo TimeWithinDay_bounds[of t] t by (simp add: msPerDay_def)
  moreover have "t < 99999744 * msPerDay"
    using hi TimeWithinDay_bounds[of t] t by (simp add: msPerDay_def)
  ultimately show ?thesis by (simp add: msPerDay_def)
qed

lemma MakeDay_in_range:
  assumes "- 271820 \<le> Y + j div 12" "Y + j div 12 \<le> 275759" "0 \<le> tw" "tw < msPerDay"
    and "1 \<le> dt" "dt \<le> DaysInMonth (j mod 12) (DaysInYear (Y + j div 12) - 365)"
  shows "\<bar>MakeDate (MakeDay Y j dt) tw\<bar> \<le> 8640000000000000"
  by (rule time_in_range[OF assms(1,2) MakeDay_civil(6)[OF assms(3-6)]
        MakeDay_civil(7)[OF assms(3-6)]])

lemma invalid_of_day_low:
  assumes "d < - 100000000" "tw < msPerDay"
  shows "TimeClip (MakeDate d tw) = None"
proof -
  have "d + 1 \<le> - 100000000" using assms(1) by simp
  then have "(d + 1) * msPerDay \<le> - 100000000 * msPerDay" by (simp add: msPerDay_def)
  then have "MakeDate d tw < - 8640000000000000"
    using assms(2) by (simp add: MakeDate_def msPerDay_def algebra_simps)
  then show ?thesis by (simp add: TimeClip_def)
qed

lemma invalid_of_day_high:
  assumes "100000000 < d \<or> (100000000 = d \<and> 0 < tw)" "0 \<le> tw"
  shows "TimeClip (MakeDate d tw) = None"
proof -
  have "8640000000000000 < MakeDate d tw"
    using assms by (auto simp: MakeDate_def msPerDay_def)
  then show ?thesis by (simp add: TimeClip_def)
qed

section \<open>Months in order\<close>

lemma DaysInMonth_pos: "l = 0 \<or> l = 1 \<Longrightarrow> 1 \<le> DaysInMonth m l"
  by (auto simp: DaysInMonth_def)

lemma MonthStartDay_succ:
  assumes "0 \<le> m" "m \<le> 10"
  shows "MonthStartDay (m + 1) l = MonthStartDay m l + DaysInMonth m l"
proof -
  have "m = 0 \<or> m = 1 \<or> m = 2 \<or> m = 3 \<or> m = 4 \<or> m = 5 \<or> m = 6 \<or> m = 7 \<or> m = 8 \<or> m = 9
   \<or> m = 10 \<or> m = 11" using assms by (intro month_cases) simp_all
  then show ?thesis using assms(2)
    by (auto simp: MonthStartDay_def DaysInMonth_def)
qed

lemma valid_of_day:
  assumes "- 100000000 \<le> d" "d < 100000000" "0 \<le> tw" "tw < msPerDay"
  shows "\<bar>MakeDate d tw\<bar> \<le> 8640000000000000"
  using assms by (simp add: MakeDate_def msPerDay_def)

lemma MakeDay_month_step:
  "MakeDay Y (j + 1) d = MakeDay Y j d + DaysInMonth (j mod 12) (DaysInYear (Y + j div 12) - 365)"
proof -
  let ?y = "Y + j div 12"
  let ?m = "j mod 12"
  let ?l = "DaysInYear ?y - 365"
  have m: "0 \<le> ?m" "?m \<le> 11" by simp_all
  have md: "?m div 12 = 0" "?m mod 12 = ?m" by simp_all
  have cur: "MakeDay Y j d = DayFromYear ?y + MonthStartDay ?m ?l + d - 1"
    by (simp add: MakeDay_def Let_def)
  have "MakeDay ?y (?m + 1) d = DayFromYear ?y + MonthStartDay ?m ?l + DaysInMonth ?m ?l + d - 1"
  proof (cases "?m = 11")
    case True
    have "MakeDay ?y 12 d = DayFromYear (?y + 1) + d - 1"
      by (simp add: MakeDay_def MonthStartDay_def)
    also have "\<dots> = DayFromYear ?y + DaysInYear ?y + d - 1" by (simp add: DayFromYear_step)
    also have "\<dots> = DayFromYear ?y + MonthStartDay 11 ?l + DaysInMonth 11 ?l + d - 1"
      by (simp add: MonthStartDay_def DaysInMonth_def)
    finally show ?thesis using True by simp
  next
    case False
    then have le: "?m \<le> 10" using m by linarith
    have a: "(?m + 1) div 12 = 0" "(?m + 1) mod 12 = ?m + 1" using m(1) le by simp_all
    show ?thesis by (simp add: MakeDay_def Let_def a MonthStartDay_succ[OF m(1) le])
  qed
  then show ?thesis using MakeDay_succ_month[of Y j d] cur by simp
qed

lemma MakeDay_less_next_month: "MakeDay Y j d < MakeDay Y (j + 1) d"
  using DaysInMonth_pos[OF leap_flag_cases, of "j mod 12" "Y + j div 12"]
  by (simp add: MakeDay_month_step)

lemma MakeDay_mono_nat: "MakeDay Y j d \<le> MakeDay Y (j + int i) d"
proof (induction i)
  case 0
  then show ?case by simp
next
  case (Suc i)
  have "MakeDay Y (j + int i) d < MakeDay Y ((j + int i) + 1) d"
    by (rule MakeDay_less_next_month)
  moreover have e: "j + int (Suc i) = (j + int i) + 1" by simp
  ultimately show ?case unfolding e using Suc by linarith
qed

lemma MakeDay_mono: "a \<le> b \<Longrightarrow> MakeDay Y a d \<le> MakeDay Y b d"
  using MakeDay_mono_nat[of Y a d "nat (b - a)"] by simp

lemma DayWithinYear_range:
  "0 \<le> DayWithinYear t \<and> DayWithinYear t < 365 + InLeapYear t"
  using YearFromTime_spec[of t] DaysInYear_cases[of "YearFromTime t"]
  by (auto simp: DayWithinYear_def InLeapYear_def DayFromYear_step)

lemma InLeapYear_flag: "InLeapYear t = DaysInYear (YearFromTime t) - 365"
  using DaysInYear_cases[of "YearFromTime t"] by (auto simp: InLeapYear_def)

text \<open>The day of \<open>t\<close> lies within its month.\<close>

lemma day_within_month:
  "MonthStartDay (MonthFromTime t) (InLeapYear t) \<le> DayWithinYear t
   \<and> DayWithinYear t
       < MonthStartDay (MonthFromTime t) (InLeapYear t) + DaysInMonth (MonthFromTime t) (InLeapYear t)"
proof -
  have l: "InLeapYear t = 0 \<or> InLeapYear t = 1" by (simp add: InLeapYear_def)
  show ?thesis
    using DayWithinYear_range[of t] l
    by (auto simp: MonthFromTime_def Let_def MonthStartDay_def DaysInMonth_def)
qed

lemma Day_bounds_of_month:
  "MakeDay (YearFromTime t) (MonthFromTime t) 1 \<le> Day t"
  "Day t < MakeDay (YearFromTime t) (MonthFromTime t + 1) 1"
  "Day t = MakeDay (YearFromTime t) (MonthFromTime t) (DateFromTime t)"
proof -
  define Y where "Y = YearFromTime t"
  define M where "M = MonthFromTime t"
  define l where "l = InLeapYear t"
  have M: "0 \<le> M" "M \<le> 11" using MonthFromTime_range[of t] by (simp_all add: M_def)
  have md: "M div 12 = 0" "M mod 12 = M" using M by simp_all
  have d: "Day t = DayFromYear Y + DayWithinYear t" by (simp add: DayWithinYear_def Y_def)
  have lf: "DaysInYear Y - 365 = l" by (simp add: InLeapYear_flag Y_def l_def)
  have cur: "MakeDay Y M x = DayFromYear Y + MonthStartDay M l + x - 1" for x
    by (simp add: MakeDay_def Let_def md lf)
  have w: "MonthStartDay M l \<le> DayWithinYear t"
      "DayWithinYear t < MonthStartDay M l + DaysInMonth M l"
    using day_within_month[of t] by (simp_all add: M_def l_def)
  have a: "MakeDay Y M 1 \<le> Day t" using w(1) by (simp add: cur d)
  have "MakeDay Y (M + 1) 1 = MakeDay Y M 1 + DaysInMonth M l"
    by (simp add: MakeDay_month_step md lf)
  then have b: "Day t < MakeDay Y (M + 1) 1" using w(2) by (simp add: cur d)
  have l: "l = 0 \<or> l = 1" by (simp add: InLeapYear_def l_def)
  have "DateFromTime t = DayWithinYear t - MonthStartDay M l + 1"
    using month_cases[OF M] l
    by (auto simp: DateFromTime_def Let_def M_def[symmetric] l_def[symmetric] MonthStartDay_def)
  then have c: "Day t = MakeDay Y M (DateFromTime t)" by (simp add: cur d)
  show "MakeDay (YearFromTime t) (MonthFromTime t) 1 \<le> Day t"
    using a by (simp add: Y_def M_def)
  show "Day t < MakeDay (YearFromTime t) (MonthFromTime t + 1) 1"
    using b by (simp add: Y_def M_def)
  show "Day t = MakeDay (YearFromTime t) (MonthFromTime t) (DateFromTime t)"
    using c by (simp add: Y_def M_def)
qed

lemma time_split: "t = MakeDate (Day t) (TimeWithinDay t)"
  by (simp add: MakeDate_def Day_def TimeWithinDay_def)

lemma MakeDate_less:
  assumes "0 \<le> a" "a < msPerDay" "0 \<le> b" "b < msPerDay"
  shows "d < e \<Longrightarrow> MakeDate d a < MakeDate e b"
proof -
  assume "d < e"
  then have "d + 1 \<le> e" by simp
  then have "(d + 1) * msPerDay \<le> e * msPerDay" by (simp add: msPerDay_def)
  then show ?thesis using assms by (simp add: MakeDate_def algebra_simps)
qed

lemma MakeDate_mono: "d \<le> e \<Longrightarrow> MakeDate d tw \<le> MakeDate e tw"
  by (simp add: MakeDate_def msPerDay_def)

lemma MakeDay_date_shift: "MakeDay Y j d = MakeDay Y j 1 + (d - 1)"
  by (simp add: MakeDay_def Let_def)

lemma Day_mono: "a \<le> b \<Longrightarrow> Day a \<le> Day b"
  by (simp add: Day_def msPerDay_def zdiv_mono1)

lemma Day_less: "t < d * msPerDay \<Longrightarrow> Day t < d"
proof -
  assume a: "t < d * msPerDay"
  have "t = Day t * msPerDay + TimeWithinDay t" by (simp add: Day_def TimeWithinDay_def)
  then have "Day t * msPerDay \<le> t" using TimeWithinDay_bounds[of t] by linarith
  then have "Day t * msPerDay < d * msPerDay" using a by linarith
  then show ?thesis by (simp add: msPerDay_def)
qed

lemma Day_greater: "d * msPerDay + (msPerDay - 1) < t \<Longrightarrow> d < Day t"
proof -
  assume a: "d * msPerDay + (msPerDay - 1) < t"
  have "t = Day t * msPerDay + TimeWithinDay t" by (simp add: Day_def TimeWithinDay_def)
  then have "t \<le> Day t * msPerDay + (msPerDay - 1)" using TimeWithinDay_bounds[of t] by linarith
  then have "d * msPerDay < Day t * msPerDay" using a by linarith
  then show ?thesis by (simp add: msPerDay_def)
qed

section \<open>The search for the next Friday the 13th\<close>

lemma friday_table_holds: "friday_table"
  by code_simp

lemma weekday_in_list: "0 \<le> (w::int) \<Longrightarrow> w < 7 \<Longrightarrow> w \<in> set [0, 1, 2, 3, 4, 5, 6]"
  by (simp; arith)

lemma month_in_list:
  "0 \<le> (m::int) \<Longrightarrow> m \<le> 11 \<Longrightarrow> m \<in> set [0, 1, 2, 3, 4, 5, 6, 7, 8, 9, 10, 11]"
  by (simp; arith)

lemma MakeDay_two_years:
  assumes "0 \<le> j" "j < 24"
  shows "MakeDay Y j 13
     = DayFromYear Y + offset13 (DaysInYear Y - 365) (DaysInYear (Y + 1) - 365) j"
proof (cases "j < 12")
  case True
  then have "j div 12 = 0" "j mod 12 = j" using assms by simp_all
  then show ?thesis using True by (simp add: MakeDay_def offset13_def)
next
  case False
  then have j: "12 \<le> j" by simp
  have d: "j div 12 = 1" using j assms(2) by (intro int_div_pos_eq[of j 12 1 "j - 12"]) simp_all
  have m: "j mod 12 = j - 12" using j assms(2) by (intro int_mod_pos_eq[of j 12 1 "j - 12"]) simp_all
  show ?thesis using False by (simp add: MakeDay_def offset13_def d m DayFromYear_step)
qed

text \<open>
  Whatever the month, one of the next fourteen 13ths is a Friday, and it falls in the
  same year or the next.
\<close>

lemma friday_exists:
  assumes "0 \<le> M" "M \<le> 11"
  shows "\<exists>k. 1 \<le> k \<and> k \<le> 14 \<and> M + k < 24 \<and> (MakeDay Y (M + k) 13 + 4) mod 7 = 5"
proof -
  let ?w = "DayFromYear Y mod 7"
  let ?l = "DaysInYear Y - 365"
  let ?l' = "DaysInYear (Y + 1) - 365"
  have w: "?w \<in> set [0, 1, 2, 3, 4, 5, 6]" by (rule weekday_in_list) simp_all
  have l: "?l \<in> set [0, 1]" using leap_flag_cases[of Y] by auto
  have l': "?l' \<in> set [0, 1]" using leap_flag_cases[of "Y + 1"] by auto
  have m: "M \<in> set [0, 1, 2, 3, 4, 5, 6, 7, 8, 9, 10, 11]" by (rule month_in_list[OF assms])
  have "friday_within ?w ?l ?l' M"
    using friday_table_holds w l l' m unfolding friday_table_def list_all_iff by blast
  then obtain k where k: "k \<in> set [1, 2, 3, 4, 5, 6, 7, 8, 9, 10, 11, 12, 13, 14]"
      and lt: "M + k < 24" and f: "(?w + offset13 ?l ?l' (M + k) + 4) mod 7 = 5"
    unfolding friday_within_def list_ex_iff by blast
  have k1: "1 \<le> k" "k \<le> 14" using k by auto
  have "MakeDay Y (M + k) 13 = DayFromYear Y + offset13 ?l ?l' (M + k)"
    using assms k1 lt by (intro MakeDay_two_years) simp_all
  then have "(MakeDay Y (M + k) 13 + 4) mod 7
      = (DayFromYear Y + (offset13 ?l ?l' (M + k) + 4)) mod 7"
    by (simp add: add.assoc)
  also have "\<dots> = (?w + (offset13 ?l ?l' (M + k) + 4)) mod 7"
    by (simp add: mod_add_left_eq)
  also have "\<dots> = 5" using f by (simp add: add.assoc)
  finally show ?thesis using k1 lt by blast
qed

lemma thirteenth_le_DaysInMonth: "l = 0 \<or> l = 1 \<Longrightarrow> 13 \<le> DaysInMonth m l"
  by (auto simp: DaysInMonth_def)

lemma thirteenth_civil:
  fixes Y j tw :: int
  defines "t \<equiv> MakeDate (MakeDay Y j 13) tw"
  assumes "0 \<le> tw" "tw < msPerDay"
  shows "TimeWithinDay t = tw" and "YearFromTime t = Y + j div 12"
    and "MonthFromTime t = j mod 12" and "DateFromTime t = 13"
proof -
  have le: "13 \<le> DaysInMonth (j mod 12) (DaysInYear (Y + j div 12) - 365)"
    by (rule thirteenth_le_DaysInMonth[OF leap_flag_cases])
  have one: "(1::int) \<le> 13" by simp
  show "TimeWithinDay t = tw" unfolding t_def by (rule MakeDay_civil(2)[OF assms(2,3) one le])
  show "YearFromTime t = Y + j div 12" unfolding t_def by (rule MakeDay_civil(3)[OF assms(2,3) one le])
  show "MonthFromTime t = j mod 12" unfolding t_def by (rule MakeDay_civil(4)[OF assms(2,3) one le])
  show "DateFromTime t = 13" unfolding t_def by (rule MakeDay_civil(5)[OF assms(2,3) one le])
qed

lemma thirteenth_in_range:
  assumes "- 271820 \<le> Y" "Y \<le> 275758" "0 \<le> j" "j < 24" "0 \<le> tw" "tw < msPerDay"
  shows "\<bar>MakeDate (MakeDay Y j 13) tw\<bar> \<le> 8640000000000000"
proof -
  have q: "0 \<le> j div 12" "j div 12 \<le> 1" using assms(3,4) by simp_all
  have y: "- 271820 \<le> Y + j div 12" "Y + j div 12 \<le> 275759" using q assms(1,2) by simp_all
  have le: "13 \<le> DaysInMonth (j mod 12) (DaysInYear (Y + j div 12) - 365)"
    by (rule thirteenth_le_DaysInMonth[OF leap_flag_cases])
  show ?thesis by (rule MakeDay_in_range[OF y assms(5,6) _ le]) simp
qed

text \<open>One call of the search on the 13th of a month, at time of day \<open>tw\<close>.\<close>

lemma loop_at_thirteenth:
  fixes Y j tw :: int
  defines "t \<equiv> MakeDate (MakeDay Y j 13) tw"
  assumes tw: "0 \<le> tw" "tw < msPerDay" and v: "\<bar>t\<bar> \<le> 8640000000000000"
  shows "getNextFridayThe13th n (Some t) =
     (if WeekDay t = 5 then Some (Some t)
      else case n of 0 \<Rightarrow> None
           | Suc k \<Rightarrow> getNextFridayThe13th k (TimeClip (MakeDate (MakeDay Y (j + 1) 13) tw)))"
proof -
  have c: "TimeWithinDay t = tw" "YearFromTime t = Y + j div 12" "MonthFromTime t = j mod 12"
      "DateFromTime t = 13"
    unfolding t_def using thirteenth_civil[OF tw, of Y j] by simp_all
  have "MakeDate (MakeDay (Y + j div 12) (j mod 12) 13) tw = t"
    unfolding t_def using MakeDay_norm[of Y j 13] by simp
  then have sd: "setDate (Date_of_Date (Some t)) 13 = Some t"
    using v by (simp add: setDate_def Date_of_Date_def LocalTime_def UTC_def c TimeClip_Some)
  have gd: "getDay (Some t) = Some (WeekDay t)" by (simp add: getDay_def LocalTime_def)
  have ge: "Date_ge (Some t) (Some t)" by (simp add: Date_ge_def)
  have gm: "Number_add (getMonth (Some t)) 1 = Some (j mod 12 + 1)"
    by (simp add: Number_add_def getMonth_def LocalTime_def c)
  have sm: "setMonth (Some t) (Some (j mod 12 + 1)) = TimeClip (MakeDate (MakeDay Y (j + 1) 13) tw)"
    by (simp add: setMonth_def LocalTime_def UTC_def c MakeDay_succ_month)
  show ?thesis
    by (subst getNextFridayThe13th.simps) (simp add: sd gd ge gm sm Let_def split: nat.split)
qed

text \<open>
  From the 13th of month \<open>j\<close>, with the first Friday among the 13ths \<open>k\<close> months on, the
  search returns that Friday after exactly \<open>k\<close> recursive calls.
\<close>

lemma search_from_thirteenth:
  fixes Y tw :: int
  assumes tw: "0 \<le> tw" "tw < msPerDay"
  shows "(\<forall>i<k. WeekDay (MakeDate (MakeDay Y (j + int i) 13) tw) \<noteq> 5) \<Longrightarrow>
     WeekDay (MakeDate (MakeDay Y (j + int k) 13) tw) = 5 \<Longrightarrow>
     (\<forall>i\<le>k. \<bar>MakeDate (MakeDay Y (j + int i) 13) tw\<bar> \<le> 8640000000000000) \<Longrightarrow>
     getNextFridayThe13th n (Some (MakeDate (MakeDay Y j 13) tw))
       = (if k \<le> n then Some (Some (MakeDate (MakeDay Y (j + int k) 13) tw)) else None)"
proof (induction k arbitrary: j n)
  case 0
  have v: "\<bar>MakeDate (MakeDay Y j 13) tw\<bar> \<le> 8640000000000000" using "0.prems"(3) by simp
  show ?case using "0.prems"(2) by (simp add: loop_at_thirteenth[OF tw v])
next
  case (Suc k)
  have v: "\<bar>MakeDate (MakeDay Y j 13) tw\<bar> \<le> 8640000000000000"
    using Suc.prems(3)[rule_format, of 0] by simp
  have nf: "WeekDay (MakeDate (MakeDay Y j 13) tw) \<noteq> 5"
    using Suc.prems(1)[rule_format, of 0] by simp
  have e: "j + 1 + int i = j + int (Suc i)" for i by simp
  have v1: "\<bar>MakeDate (MakeDay Y (j + 1) 13) tw\<bar> \<le> 8640000000000000"
    using Suc.prems(3)[rule_format, of 1] by simp
  have nfs: "\<forall>i<k. WeekDay (MakeDate (MakeDay Y (j + 1 + int i) 13) tw) \<noteq> 5"
    using Suc.prems(1) unfolding e by auto
  have fr: "WeekDay (MakeDate (MakeDay Y (j + 1 + int k) 13) tw) = 5"
    using Suc.prems(2) by (simp add: e)
  have vs: "\<forall>i\<le>k. \<bar>MakeDate (MakeDay Y (j + 1 + int i) 13) tw\<bar> \<le> 8640000000000000"
    using Suc.prems(3) unfolding e by auto
  note IH = Suc.IH[OF nfs fr vs]
  show ?case
  proof (cases n)
    case 0
    then show ?thesis using nf by (simp add: loop_at_thirteenth[OF tw v])
  next
    case (Suc n')
    have "getNextFridayThe13th n (Some (MakeDate (MakeDay Y j 13) tw))
        = getNextFridayThe13th n' (Some (MakeDate (MakeDay Y (j + 1) 13) tw))"
      using nf by (simp add: loop_at_thirteenth[OF tw v] Suc TimeClip_Some[OF v1])
    then show ?thesis using IH[of n'] Suc by (simp add: e)
  qed
qed

lemma getNextFridayThe13th_invalid: "getNextFridayThe13th n None = None"
proof (induction n)
  case 0
  show ?case
    by (subst getNextFridayThe13th.simps) (simp add: setDate_def Date_of_Date_def getDay_def)
next
  case (Suc n)
  show ?case
    by (subst getNextFridayThe13th.simps)
       (simp add: setDate_def Date_of_Date_def getDay_def setMonth_def Suc)
qed

text \<open>The first call, on any date whose month has its 13th in the range of Date.\<close>

lemma first_call:
  fixes t :: int
  defines "Y \<equiv> YearFromTime t" and "M \<equiv> MonthFromTime t" and "tw \<equiv> TimeWithinDay t"
  assumes v0: "\<bar>MakeDate (MakeDay (YearFromTime t) (MonthFromTime t) 13) (TimeWithinDay t)\<bar>
                 \<le> 8640000000000000"
  shows "getNextFridayThe13th n (Some t) =
     (if WeekDay (MakeDate (MakeDay Y M 13) tw) = 5 \<and> t \<le> MakeDate (MakeDay Y M 13) tw
      then Some (Some (MakeDate (MakeDay Y M 13) tw))
      else case n of 0 \<Rightarrow> None
           | Suc k \<Rightarrow> getNextFridayThe13th k (TimeClip (MakeDate (MakeDay Y (M + 1) 13) tw)))"
proof -
  define T where "T = (\<lambda>j. MakeDate (MakeDay Y j 13) tw)"
  have tw: "0 \<le> tw" "tw < msPerDay" using TimeWithinDay_bounds[of t] by (simp_all add: tw_def)
  have M: "0 \<le> M" "M \<le> 11" using MonthFromTime_range[of t] by (simp_all add: M_def)
  have v0': "\<bar>T M\<bar> \<le> 8640000000000000" using v0 by (simp add: T_def Y_def M_def tw_def)
  have sd: "setDate (Date_of_Date (Some t)) 13 = Some (T M)"
    using v0'
    by (simp add: setDate_def Date_of_Date_def LocalTime_def UTC_def Let_def TimeClip_Some
          T_def Y_def M_def tw_def)
  have c: "TimeWithinDay (T M) = tw" "YearFromTime (T M) = Y + M div 12"
      "MonthFromTime (T M) = M mod 12" "DateFromTime (T M) = 13"
    unfolding T_def using thirteenth_civil[OF tw, of Y M] by simp_all
  have tc: "TimeClip (MakeDate (MakeDay Y (M + 1) 13) tw) = TimeClip (T (M + 1))"
    by (simp add: T_def)
  have sm: "setMonth (Some (T M)) (Number_add (getMonth (Some (T M))) 1) = TimeClip (T (M + 1))"
    by (simp add: setMonth_def Number_add_def getMonth_def LocalTime_def UTC_def c
          MakeDay_succ_month tc)
  have gd: "getDay (Some (T M)) = Some (WeekDay (T M))" by (simp add: getDay_def LocalTime_def)
  have ge: "Date_ge (Some (T M)) (Some t) = (t \<le> T M)" by (simp add: Date_ge_def)
  have "getNextFridayThe13th n (Some t) =
     (if WeekDay (T M) = 5 \<and> t \<le> T M then Some (Some (T M))
      else case n of 0 \<Rightarrow> None | Suc k \<Rightarrow> getNextFridayThe13th k (TimeClip (T (M + 1))))"
    by (subst getNextFridayThe13th.simps) (simp add: sd gd ge sm Let_def split: nat.split)
  then show ?thesis unfolding T_def .
qed

text \<open>
  The search returns as soon as a Friday lies among the next 13ths and every 13th up to
  it is in the range of Date.
\<close>

lemma search_core:
  fixes t :: int
  defines "Y \<equiv> YearFromTime t" and "M \<equiv> MonthFromTime t" and "tw \<equiv> TimeWithinDay t"
  assumes n: "14 \<le> n"
    and h: "(WeekDay (MakeDate (MakeDay Y M 13) tw) = 5 \<and> t \<le> MakeDate (MakeDay Y M 13) tw
             \<and> \<bar>MakeDate (MakeDay Y M 13) tw\<bar> \<le> 8640000000000000)
        \<or> (\<exists>k::nat. 1 \<le> k \<and> k \<le> 14 \<and> WeekDay (MakeDate (MakeDay Y (M + int k) 13) tw) = 5
             \<and> (\<forall>i\<le>k. \<bar>MakeDate (MakeDay Y (M + int i) 13) tw\<bar> \<le> 8640000000000000))"
  shows "\<exists>r. getNextFridayThe13th n (Some t) = Some (Some r)
            \<and> getDay (Some r) = Some 5 \<and> getDate (Some r) = Some 13 \<and> t \<le> r"
proof -
  define T where "T = (\<lambda>j. MakeDate (MakeDay Y j 13) tw)"
  have tw: "0 \<le> tw" "tw < msPerDay" using TimeWithinDay_bounds[of t] by (simp_all add: tw_def)
  have h': "(WeekDay (T M) = 5 \<and> t \<le> T M \<and> \<bar>T M\<bar> \<le> 8640000000000000)
        \<or> (\<exists>k::nat. 1 \<le> k \<and> k \<le> 14 \<and> WeekDay (T (M + int k)) = 5
             \<and> (\<forall>i\<le>k. \<bar>T (M + int i)\<bar> \<le> 8640000000000000))"
    using h by (simp add: T_def)
  have v0: "\<bar>T M\<bar> \<le> 8640000000000000"
  proof -
    { fix k :: nat assume "\<forall>i\<le>k. \<bar>T (M + int i)\<bar> \<le> 8640000000000000"
      then have "\<bar>T (M + int 0)\<bar> \<le> 8640000000000000" by blast
      then have "\<bar>T M\<bar> \<le> 8640000000000000" by simp }
    then show ?thesis using h' by blast
  qed
  have d13: "getDate (Some (T j)) = Some 13" for j
    unfolding T_def getDate_def LocalTime_def using thirteenth_civil(4)[OF tw, of Y j] by simp
  have gd: "getDay (Some r) = Some (WeekDay r)" for r by (simp add: getDay_def LocalTime_def)
  have fc: "getNextFridayThe13th n (Some t) =
     (if WeekDay (T M) = 5 \<and> t \<le> T M then Some (Some (T M))
      else case n of 0 \<Rightarrow> None | Suc k \<Rightarrow> getNextFridayThe13th k (TimeClip (T (M + 1))))"
    unfolding T_def Y_def M_def tw_def
    by (rule first_call) (use v0 in \<open>simp add: T_def Y_def M_def tw_def\<close>)
  obtain n' where n': "n = Suc n'" "13 \<le> n'" using n by (cases n) simp_all
  show ?thesis
  proof (cases "WeekDay (T M) = 5 \<and> t \<le> T M")
    case True
    then show ?thesis using fc d13 gd by auto
  next
    case False
    then obtain k :: nat where k: "1 \<le> k" "k \<le> 14" and f: "WeekDay (T (M + int k)) = 5"
        and v: "\<forall>i\<le>k. \<bar>T (M + int i)\<bar> \<le> 8640000000000000"
      using h' by blast
    have v1: "\<bar>T (M + 1)\<bar> \<le> 8640000000000000" using v[rule_format, of 1] k(1) by simp
    have step: "getNextFridayThe13th n (Some t) = getNextFridayThe13th n' (Some (T (M + 1)))"
      using False fc n'(1) by (auto simp: TimeClip_Some[OF v1])
    define P where "P = (\<lambda>i. WeekDay (T (M + 1 + int i)) = 5)"
    have ke: "M + 1 + int (k - 1) = M + int k" using k(1) by simp
    have Pk: "P (k - 1)" unfolding P_def ke by (rule f)
    define k0 where "k0 = (LEAST i. P i)"
    have P0: "P k0" unfolding k0_def using Pk by (rule LeastI)
    have le: "k0 \<le> k - 1" unfolding k0_def using Pk by (rule Least_le)
    have nP: "\<forall>i<k0. \<not> P i" unfolding k0_def using not_less_Least by blast
    have kn: "k0 \<le> n'" using le k n'(2) by simp
    have vs: "\<forall>i\<le>k0. \<bar>T (M + 1 + int i)\<bar> \<le> 8640000000000000"
    proof (intro allI impI)
      fix i assume "i \<le> k0"
      then have "Suc i \<le> k" using le k(1) by simp
      then have "\<bar>T (M + int (Suc i))\<bar> \<le> 8640000000000000" using v by blast
      moreover have "M + 1 + int i = M + int (Suc i)" by simp
      ultimately show "\<bar>T (M + 1 + int i)\<bar> \<le> 8640000000000000" by metis
    qed
    have "getNextFridayThe13th n' (Some (T (M + 1)))
        = (if k0 \<le> n' then Some (Some (T (M + 1 + int k0))) else None)"
      unfolding T_def
      by (rule search_from_thirteenth[OF tw])
         (use nP P0 vs in \<open>simp_all add: P_def T_def\<close>)
    then have res: "getNextFridayThe13th n (Some t) = Some (Some (T (M + 1 + int k0)))"
      using step kn by simp
    have "Day t < MakeDay Y (M + 1) 1"
      unfolding Y_def M_def by (rule Day_bounds_of_month(2))
    also have "\<dots> \<le> MakeDay Y (M + 1) 13" using MakeDay_date_shift[of Y "M + 1" 13] by simp
    finally have "MakeDate (Day t) tw < MakeDate (MakeDay Y (M + 1) 13) tw"
      by (rule MakeDate_less[OF tw tw])
    then have "t < T (M + 1)" using time_split[of t] by (simp add: T_def tw_def)
    moreover have "T (M + 1) \<le> T (M + 1 + int k0)"
      unfolding T_def by (intro MakeDate_mono MakeDay_mono) simp
    ultimately have "t \<le> T (M + 1 + int k0)" by simp
    then show ?thesis using res P0 d13 gd unfolding P_def by auto
  qed
qed

lemma no_friday_13th_sep1999_sep2000:
  "list_all (\<lambda>j. (MakeDay 1999 j 13 + 4) mod 7 \<noteq> 5)
     [8, 9, 10, 11, 12, 13, 14, 15, 16, 17, 18, 19, 20]"
  by code_simp

text \<open>
  Fourteen recursive calls are needed from 14 August 1999: the 13th of that month is a
  Friday already past, and the next Friday the 13th is in October 2000.
\<close>

lemma getNextFridayThe13th_needs_14:
  "getNextFridayThe13th 13 (Date_of_ymd 1999 7 14) = None
   \<and> getNextFridayThe13th 14 (Date_of_ymd 1999 7 14) = Some (Date_of_ymd 2000 9 13)"
proof -
  let ?t = "934588800000 :: int"
  have d0: "Date_of_ymd 1999 7 14 = Some ?t" by code_simp
  have d1: "Date_of_ymd 2000 9 13 = Some (MakeDate (MakeDay 1999 21 13) 0)" by code_simp
  have c: "YearFromTime ?t = 1999" "MonthFromTime ?t = 7" "TimeWithinDay ?t = 0" by code_simp+
  have v0: "\<bar>MakeDate (MakeDay (YearFromTime ?t) (MonthFromTime ?t) 13) (TimeWithinDay ?t)\<bar>
      \<le> 8640000000000000"
    unfolding c by (rule thirteenth_in_range) (simp_all add: msPerDay_def)
  have tw: "(0::int) \<le> 0" "0 < msPerDay" by (simp_all add: msPerDay_def)
  have before: "\<not> ?t \<le> MakeDate (MakeDay 1999 7 13) 0" by code_simp
  have v8: "\<bar>MakeDate (MakeDay 1999 8 13) 0\<bar> \<le> 8640000000000000"
    by (rule thirteenth_in_range) (simp_all add: msPerDay_def)
  have fc: "getNextFridayThe13th (Suc n) (Some ?t)
      = getNextFridayThe13th n (Some (MakeDate (MakeDay 1999 8 13) 0))" for n
    using first_call[OF v0, of "Suc n"] before by (simp add: c TimeClip_Some[OF v8])
  have nf: "\<forall>i<13. WeekDay (MakeDate (MakeDay 1999 (8 + int i) 13) 0) \<noteq> 5"
  proof (intro allI impI)
    fix i :: nat assume "i < 13"
    then have "8 + int i \<in> set [8, 9, 10, 11, 12, 13, 14, 15, 16, 17, 18, 19, 20]"
      by (simp; arith)
    then have "(MakeDay 1999 (8 + int i) 13 + 4) mod 7 \<noteq> 5"
      using no_friday_13th_sep1999_sep2000 unfolding list_all_iff by blast
    then show "WeekDay (MakeDate (MakeDay 1999 (8 + int i) 13) 0) \<noteq> 5"
      by (simp add: WeekDay_MakeDate[OF tw])
  qed
  have fr: "WeekDay (MakeDate (MakeDay 1999 (8 + int 13) 13) 0) = 5" by code_simp
  have vs: "\<forall>i\<le>13. \<bar>MakeDate (MakeDay 1999 (8 + int i) 13) 0\<bar> \<le> 8640000000000000"
    using tw by (auto intro!: thirteenth_in_range)
  have run: "getNextFridayThe13th n (Some (MakeDate (MakeDay 1999 8 13) 0))
      = (if 13 \<le> n then Some (Some (MakeDate (MakeDay 1999 (8 + int 13) 13) 0)) else None)" for n
    by (rule search_from_thirteenth[OF tw nf fr vs])
  have n13: "(13::nat) = Suc 12" and n14: "(14::nat) = Suc 13" by simp_all
  have "getNextFridayThe13th 13 (Some ?t) = None"
    unfolding n13 fc using run[of 12] by simp
  moreover have "getNextFridayThe13th 14 (Some ?t) = Some (Some (MakeDate (MakeDay 1999 21 13) 0))"
    unfolding n14 fc using run[of 13] by simp
  ultimately show ?thesis by (simp add: d0 d1)
qed

lemma searchable_days:
  "MakeDay (- 271821) 4 1 = - 99999989" "MakeDay (- 271821) 4 13 = - 99999977"
  "MakeDay (- 271821) 23 13 = - 99999397"
  "MakeDay 275759 0 13 = 99999391" "MakeDay 275759 17 13 = 99999908"
  "MakeDay 275760 0 13 = 99999756" "MakeDay 275760 5 13 = 99999908"
  "MakeDay 275760 6 1 = 99999926"
  by code_simp+

lemma searchable_years:
  "DayFromYear (- 271821) = - 100000109" "DayFromYear 275761 = 100000110"
  by code_simp+

lemma searchable_fridays:
  "(MakeDay 275759 3 13 + 4) mod 7 = 5" "(MakeDay 275759 6 13 + 4) mod 7 = 5"
  "(MakeDay 275759 17 13 + 4) mod 7 = 5" "(MakeDay 275760 5 13 + 4) mod 7 = 5"
  by code_simp+

lemma searchable_range_values:
  "earliest_searchable = - 8639999049600000" "latest_searchable = 8639992137599999"
  by code_simp+

lemma valid_between:
  assumes "- 100000000 \<le> MakeDay Y a 13" "MakeDay Y b 13 < 100000000" "a \<le> j" "j \<le> b"
    and "0 \<le> tw" "tw < msPerDay"
  shows "\<bar>MakeDate (MakeDay Y j 13) tw\<bar> \<le> 8640000000000000"
proof -
  have "MakeDay Y a 13 \<le> MakeDay Y j 13" using assms(3) by (rule MakeDay_mono)
  moreover have "MakeDay Y j 13 \<le> MakeDay Y b 13" using assms(4) by (rule MakeDay_mono)
  ultimately show ?thesis using assms(1,2) by (intro valid_of_day[OF _ _ assms(5,6)]) simp_all
qed

lemma year_of_searchable:
  assumes "- 99999989 \<le> Day t" "Day t \<le> 99999908"
  shows "- 271821 \<le> YearFromTime t" and "YearFromTime t \<le> 275760"
proof -
  let ?Y = "YearFromTime t"
  have sp: "DayFromYear ?Y \<le> Day t" "Day t < DayFromYear (?Y + 1)"
    using YearFromTime_spec[of t] by simp_all
  show "- 271821 \<le> ?Y"
  proof (rule ccontr)
    assume "\<not> - 271821 \<le> ?Y"
    then have "DayFromYear (?Y + 1) \<le> DayFromYear (- 271821)" by (intro DayFromYear_mono) simp
    then show False using sp(2) assms(1) by (simp add: searchable_years)
  qed
  show "?Y \<le> 275760"
  proof (rule ccontr)
    assume "\<not> ?Y \<le> 275760"
    then have "DayFromYear 275761 \<le> DayFromYear ?Y" by (intro DayFromYear_mono) simp
    then show False using sp(1) assms(2) by (simp add: searchable_years)
  qed
qed

text \<open>A Friday among the next fourteen 13ths, all of them in the range of Date.\<close>

lemma friday_in_range:
  assumes M: "0 \<le> M" "M \<le> 11" and tw: "0 \<le> tw" "tw < msPerDay"
    and v: "\<And>j. M \<le> j \<Longrightarrow> j < 24 \<Longrightarrow> \<bar>MakeDate (MakeDay Y j 13) tw\<bar> \<le> 8640000000000000"
  shows "\<exists>k::nat. 1 \<le> k \<and> k \<le> 14 \<and> WeekDay (MakeDate (MakeDay Y (M + int k) 13) tw) = 5
             \<and> (\<forall>i\<le>k. \<bar>MakeDate (MakeDay Y (M + int i) 13) tw\<bar> \<le> 8640000000000000)"
proof -
  obtain k where k: "1 \<le> k" "k \<le> 14" "M + k < 24" and f: "(MakeDay Y (M + k) 13 + 4) mod 7 = 5"
    using friday_exists[OF M, of Y] by blast
  have e: "int (nat k) = k" using k(1) by simp
  have "WeekDay (MakeDate (MakeDay Y (M + int (nat k)) 13) tw) = 5"
    unfolding e using f by (simp add: WeekDay_MakeDate[OF tw])
  moreover have "\<forall>i\<le>nat k. \<bar>MakeDate (MakeDay Y (M + int i) 13) tw\<bar> \<le> 8640000000000000"
  proof (intro allI impI)
    fix i assume "i \<le> nat k"
    then have "int i \<le> k" using e by linarith
    then show "\<bar>MakeDate (MakeDay Y (M + int i) 13) tw\<bar> \<le> 8640000000000000"
      using k(3) by (intro v) simp_all
  qed
  moreover have "1 \<le> nat k" "nat k \<le> 14" using k by simp_all
  ultimately show ?thesis by blast
qed

text \<open>The same when the 13ths are in range only up to a month known to hold a Friday.\<close>

lemma friday_at:
  assumes tw: "0 \<le> tw" "tw < msPerDay"
    and j: "M < j" "j \<le> M + 14" and f: "(MakeDay Y j 13 + 4) mod 7 = 5"
    and v: "\<And>i. M \<le> i \<Longrightarrow> i \<le> j \<Longrightarrow> \<bar>MakeDate (MakeDay Y i 13) tw\<bar> \<le> 8640000000000000"
  shows "\<exists>k::nat. 1 \<le> k \<and> k \<le> 14 \<and> WeekDay (MakeDate (MakeDay Y (M + int k) 13) tw) = 5
             \<and> (\<forall>i\<le>k. \<bar>MakeDate (MakeDay Y (M + int i) 13) tw\<bar> \<le> 8640000000000000)"
proof -
  define k where "k = nat (j - M)"
  have e: "M + int k = j" using j(1) by (simp add: k_def)
  have "WeekDay (MakeDate (MakeDay Y (M + int k) 13) tw) = 5"
    unfolding e using f by (simp add: WeekDay_MakeDate[OF tw])
  moreover have "\<forall>i\<le>k. \<bar>MakeDate (MakeDay Y (M + int i) 13) tw\<bar> \<le> 8640000000000000"
  proof (intro allI impI)
    fix i assume "i \<le> k"
    then have "M + int i \<le> j" using e by linarith
    then show "\<bar>MakeDate (MakeDay Y (M + int i) 13) tw\<bar> \<le> 8640000000000000"
      by (intro v) simp_all
  qed
  moreover have "1 \<le> k" "k \<le> 14" using j by (simp_all add: k_def)
  ultimately show ?thesis by blast
qed

text \<open>
  Claim C7, as amended. In a UTC environment, for every date from 1 May -271821 to
  13 June 275760, the month-by-month search of getNextFridayThe13th returns after at
  most 14 recursive calls, and what it returns is a Friday, the 13th of its month, and
  not before the given date. (Fourteen calls are needed from 14 August 1999, so a bound
  of 12 or 13 is too small; for every other Date the search does not return at all.)
\<close>

theorem getNextFridayThe13th_terminates:
  assumes lo: "earliest_searchable \<le> t" and hi: "t \<le> latest_searchable" and n: "14 \<le> n"
  shows "\<exists>r. getNextFridayThe13th n (Some t) = Some (Some r)
            \<and> getDay (Some r) = Some 5 \<and> getDate (Some r) = Some 13 \<and> t \<le> r"
proof -
  define Y where "Y = YearFromTime t"
  define M where "M = MonthFromTime t"
  define tw where "tw = TimeWithinDay t"
  define T where "T = (\<lambda>j. MakeDate (MakeDay Y j 13) tw)"
  have tw: "0 \<le> tw" "tw < msPerDay" using TimeWithinDay_bounds[of t] by (simp_all add: tw_def)
  have M: "0 \<le> M" "M \<le> 11" using MonthFromTime_range[of t] by (simp_all add: M_def)
  have z: "(0::int) \<le> 0" "0 < msPerDay" "0 \<le> msPerDay - 1" "msPerDay - 1 < msPerDay"
    by (simp_all add: msPerDay_def)
  have "Day earliest_searchable \<le> Day t" using lo by (rule Day_mono)
  then have dlo: "- 99999989 \<le> Day t"
    by (simp add: earliest_searchable_def Day_MakeDate[OF z(1,2)] searchable_days)
  have "Day t \<le> Day latest_searchable" using hi by (rule Day_mono)
  then have dhi: "Day t \<le> 99999908"
    by (simp add: latest_searchable_def Day_MakeDate[OF z(3,4)] searchable_days)
  have Y: "- 271821 \<le> Y" "Y \<le> 275760"
    unfolding Y_def by (rule year_of_searchable[OF dlo dhi])+
  have first: "MakeDay Y M 1 \<le> Day t" and next1: "Day t < MakeDay Y (M + 1) 1"
    unfolding Y_def M_def by (rule Day_bounds_of_month)+
  have goal: "(WeekDay (T M) = 5 \<and> t \<le> T M \<and> \<bar>T M\<bar> \<le> 8640000000000000)
        \<or> (\<exists>k::nat. 1 \<le> k \<and> k \<le> 14 \<and> WeekDay (T (M + int k)) = 5
             \<and> (\<forall>i\<le>k. \<bar>T (M + int i)\<bar> \<le> 8640000000000000))"
  proof -
    consider (inner) "- 271820 \<le> Y" "Y \<le> 275758" | (first_year) "Y = - 271821"
      | (last_but_one) "Y = 275759" | (last_year) "Y = 275760"
      using Y by linarith
    then show ?thesis
    proof cases
      case inner
      have "\<bar>MakeDate (MakeDay Y j 13) tw\<bar> \<le> 8640000000000000" if "M \<le> j" "j < 24" for j
        using inner that M tw by (intro thirteenth_in_range) simp_all
      then show ?thesis unfolding T_def using friday_in_range[OF M tw] by blast
    next
      case first_year
      have "4 \<le> M"
      proof (rule ccontr)
        assume "\<not> 4 \<le> M"
        then have "MakeDay Y (M + 1) 1 \<le> MakeDay Y 4 1" by (intro MakeDay_mono) simp
        then show False using next1 dlo by (simp add: first_year searchable_days)
      qed
      then have "\<bar>MakeDate (MakeDay Y j 13) tw\<bar> \<le> 8640000000000000" if "M \<le> j" "j < 24" for j
        using that tw
        by (intro valid_between[of Y 4 23]) (simp_all add: first_year searchable_days)
      then show ?thesis unfolding T_def using friday_in_range[OF M tw] by blast
    next
      case last_but_one
      have v: "\<bar>MakeDate (MakeDay Y j 13) tw\<bar> \<le> 8640000000000000" if "M \<le> j" "j \<le> 17" for j
        using that tw M
        by (intro valid_between[of Y 0 17]) (simp_all add: last_but_one searchable_days)
      consider "M < 3" | "3 \<le> M" "M < 6" | "6 \<le> M" by linarith
      then show ?thesis
      proof cases
        case 1
        show ?thesis unfolding T_def
          by (rule disjI2, rule friday_at[OF tw, of M 3])
             (use 1 M v in \<open>simp_all add: last_but_one searchable_fridays\<close>)
      next
        case 2
        show ?thesis unfolding T_def
          by (rule disjI2, rule friday_at[OF tw, of M 6])
             (use 2 M v in \<open>simp_all add: last_but_one searchable_fridays\<close>)
      next
        case 3
        show ?thesis unfolding T_def
          by (rule disjI2, rule friday_at[OF tw, of M 17])
             (use 3 M v in \<open>simp_all add: last_but_one searchable_fridays\<close>)
      qed
    next
      case last_year
      have M5: "M \<le> 5"
      proof (rule ccontr)
        assume "\<not> M \<le> 5"
        then have "MakeDay Y 6 1 \<le> MakeDay Y M 1" by (intro MakeDay_mono) simp
        then show False using first dhi by (simp add: last_year searchable_days)
      qed
      have v: "\<bar>MakeDate (MakeDay Y j 13) tw\<bar> \<le> 8640000000000000" if "M \<le> j" "j \<le> 5" for j
        using that tw M
        by (intro valid_between[of Y 0 5]) (simp_all add: last_year searchable_days)
      show ?thesis
      proof (cases "M = 5")
        case True
        have "WeekDay (T 5) = 5"
          by (simp add: T_def WeekDay_MakeDate[OF tw] last_year searchable_fridays)
        moreover have "t \<le> T 5"
        proof -
          have "Day t \<le> MakeDay Y 5 13" using dhi by (simp add: last_year searchable_days)
          then have "MakeDate (Day t) tw \<le> MakeDate (MakeDay Y 5 13) tw" by (rule MakeDate_mono)
          then show ?thesis using time_split[of t] by (simp add: T_def tw_def)
        qed
        moreover have "\<bar>T 5\<bar> \<le> 8640000000000000"
          unfolding T_def using True by (intro v) simp_all
        ultimately show ?thesis using True by simp
      next
        case False
        then have "M < 5" using M5 by simp
        then show ?thesis unfolding T_def
          by (intro disjI2 friday_at[OF tw, of M 5])
             (use M v in \<open>simp_all add: last_year searchable_fridays\<close>)
      qed
    qed
  qed
  show ?thesis
    by (rule search_core[OF n]) (use goal in \<open>simp add: T_def Y_def M_def tw_def\<close>)
qed

theorem getNextFridayThe13th_terminates_witness:
  "earliest_searchable \<le> 934588800000 \<and> 934588800000 \<le> latest_searchable
   \<and> (\<exists>r. getNextFridayThe13th 14 (Some 934588800000) = Some (Some r)
        \<and> getDay (Some r) = Some 5 \<and> getDate (Some r) = Some 13 \<and> 934588800000 \<le> r)"
proof -
  have lo: "earliest_searchable \<le> 934588800000"
    by (simp add: earliest_searchable_def searchable_days MakeDate_def msPerDay_def)
  have hi: "934588800000 \<le> latest_searchable"
    by (simp add: latest_searchable_def searchable_days MakeDate_def msPerDay_def)
  show ?thesis
    using lo hi getNextFridayThe13th_terminates[OF lo hi, of 14] by simp
qed

lemma never_after_invalid_setDate:
  assumes "setDate (Date_of_Date (Some t)) 13 = None"
  shows "getNextFridayThe13th n (Some t) = None"
  by (subst getNextFridayThe13th.simps)
     (simp add: assms getDay_def setMonth_def getNextFridayThe13th_invalid Let_def split: nat.split)

lemma last_year_days:
  "MakeDay 275760 6 13 = 99999938" "MakeDay 275760 7 13 = 99999969"
  "MakeDay 275760 8 13 = 100000000" "MakeDay 275760 9 13 = 100000030"
  "MakeDay (- 271821) 3 13 = - 100000007" "MakeDay (- 271821) 3 1 = - 100000019"
  "MakeDay 275760 9 1 = 100000018"
  by code_simp+

text \<open>From the 13th of July, August or September 275760 the search never returns.\<close>

lemma never_from_september_275760:
  assumes tw: "0 \<le> tw" "tw < msPerDay"
  shows "getNextFridayThe13th n (TimeClip (MakeDate (MakeDay 275760 8 13) tw)) = None"
proof (cases "tw = 0")
  case True
  have v: "\<bar>MakeDate (MakeDay 275760 8 13) tw\<bar> \<le> 8640000000000000"
    using True by (simp add: last_year_days MakeDate_def msPerDay_def)
  have nf: "WeekDay (MakeDate (MakeDay 275760 8 13) tw) \<noteq> 5"
    by (simp add: WeekDay_MakeDate[OF tw] last_year_days)
  have nx: "TimeClip (MakeDate (MakeDay 275760 9 13) tw) = None"
    using tw by (intro invalid_of_day_high) (simp_all add: last_year_days)
  show ?thesis
    using nf
    by (simp add: TimeClip_Some[OF v] loop_at_thirteenth[OF tw v] nx
          getNextFridayThe13th_invalid split: nat.split)
next
  case False
  have "TimeClip (MakeDate (MakeDay 275760 8 13) tw) = None"
    using tw False by (intro invalid_of_day_high) (simp_all add: last_year_days)
  then show ?thesis by (simp add: getNextFridayThe13th_invalid)
qed

lemma never_from_august_275760:
  assumes tw: "0 \<le> tw" "tw < msPerDay"
  shows "getNextFridayThe13th n (Some (MakeDate (MakeDay 275760 7 13) tw)) = None"
proof -
  have v: "\<bar>MakeDate (MakeDay 275760 7 13) tw\<bar> \<le> 8640000000000000"
    using tw by (intro valid_of_day) (simp_all add: last_year_days)
  have nf: "WeekDay (MakeDate (MakeDay 275760 7 13) tw) \<noteq> 5"
    by (simp add: WeekDay_MakeDate[OF tw] last_year_days)
  have nx: "getNextFridayThe13th k (TimeClip (MakeDate (MakeDay 275760 8 13) tw)) = None" for k
    using never_from_september_275760[OF tw, of k] by simp
  show ?thesis using nf by (simp add: loop_at_thirteenth[OF tw v] nx split: nat.split)
qed

lemma never_from_july_275760:
  assumes tw: "0 \<le> tw" "tw < msPerDay"
  shows "getNextFridayThe13th n (Some (MakeDate (MakeDay 275760 6 13) tw)) = None"
proof -
  have v: "\<bar>MakeDate (MakeDay 275760 6 13) tw\<bar> \<le> 8640000000000000"
    using tw by (intro valid_of_day) (simp_all add: last_year_days)
  have v7: "\<bar>MakeDate (MakeDay 275760 7 13) tw\<bar> \<le> 8640000000000000"
    using tw by (intro valid_of_day) (simp_all add: last_year_days)
  have nf: "WeekDay (MakeDate (MakeDay 275760 6 13) tw) \<noteq> 5"
    by (simp add: WeekDay_MakeDate[OF tw] last_year_days)
  have nx: "getNextFridayThe13th k (TimeClip (MakeDate (MakeDay 275760 7 13) tw)) = None" for k
    using never_from_august_275760[OF tw, of k] TimeClip_Some[OF v7] by simp
  show ?thesis using nf by (simp add: loop_at_thirteenth[OF tw v] nx split: nat.split)
qed

lemma last_year_facts:
  "DayFromYear 275760 = 99999744" "DaysInYear 275760 = 366" "DaysInYear (- 271821) = 365"
  "(MakeDay 275760 8 13 + 4) mod 7 \<noteq> 5"  "(MakeDay 275760 7 13 + 4) mod 7 \<noteq> 5"
  "(MakeDay 275760 6 13 + 4) mod 7 \<noteq> 5"
  by code_simp+

text \<open>
  Outside the range from 1 May -271821 to 13 June 275760 the search never returns: before
  it the 13th of the month precedes the first Date, after it no Friday the 13th is left
  before the last Date.
\<close>

lemma getNextFridayThe13th_never_outside:
  assumes v: "\<bar>t\<bar> \<le> 8640000000000000"
    and out: "t < earliest_searchable \<or> latest_searchable < t"
  shows "getNextFridayThe13th n (Some t) = None"
proof -
  define tw where "tw = TimeWithinDay t"
  have tw: "0 \<le> tw" "tw < msPerDay" using TimeWithinDay_bounds[of t] by (simp_all add: tw_def)
  have ts: "t = Day t * msPerDay + tw" by (simp add: Day_def TimeWithinDay_def tw_def)
  from out show ?thesis
  proof
    assume "t < earliest_searchable"
    then have "t < (- 99999989) * msPerDay"
      by (simp add: earliest_searchable_def MakeDate_def searchable_days)
    then have hi: "Day t < - 99999989" by (rule Day_less)
    have "- 100000000 \<le> Day t"
    proof (rule ccontr)
      assume "\<not> - 100000000 \<le> Day t"
      then have "Day t + 1 \<le> - 100000000" by simp
      then have "(Day t + 1) * msPerDay \<le> - 100000000 * msPerDay" by (simp add: msPerDay_def)
      then show False using ts tw v by (simp add: msPerDay_def algebra_simps)
    qed
    then have k: "0 \<le> Day t + 100000109" "Day t + 100000109 < DaysInYear (- 271821)"
      and D: "Day t = DayFromYear (- 271821) + (Day t + 100000109)"
      using hi by (simp_all add: last_year_facts searchable_years)
    have Y: "YearFromTime t = - 271821" by (rule day_in_year(1)[OF k D])
    have dwy: "DayWithinYear t = Day t + 100000109" by (rule day_in_year(2)[OF k D])
    have l: "InLeapYear t = 0" using day_in_year(3)[OF k D] by (simp add: last_year_facts)
    have M: "MonthFromTime t = 3"
      using hi \<open>- 100000000 \<le> Day t\<close> by (simp add: MonthFromTime_def Let_def dwy l)
    have "setDate (Date_of_Date (Some t)) 13 = TimeClip (MakeDate (- 100000007) tw)"
      by (simp add: setDate_def Date_of_Date_def LocalTime_def UTC_def Y M tw_def last_year_days)
    also have "\<dots> = None" using tw by (intro invalid_of_day_low) simp_all
    finally show ?thesis by (rule never_after_invalid_setDate)
  next
    assume "latest_searchable < t"
    then have "99999908 * msPerDay + (msPerDay - 1) < t"
      by (simp add: latest_searchable_def MakeDate_def searchable_days)
    then have lo: "99999908 < Day t" by (rule Day_greater)
    have hi: "Day t \<le> 100000000"
    proof (rule ccontr)
      assume "\<not> Day t \<le> 100000000"
      then have "100000001 \<le> Day t" by simp
      then have "100000001 * msPerDay \<le> Day t * msPerDay" by (simp add: msPerDay_def)
      then show False using ts tw v by (simp add: msPerDay_def)
    qed
    have k: "0 \<le> Day t - 99999744" "Day t - 99999744 < DaysInYear 275760"
      and D: "Day t = DayFromYear 275760 + (Day t - 99999744)"
      using lo hi by (simp_all add: last_year_facts)
    have Y: "YearFromTime t = 275760" by (rule day_in_year(1)[OF k D])
    have dwy: "DayWithinYear t = Day t - 99999744" by (rule day_in_year(2)[OF k D])
    have l: "InLeapYear t = 1" using day_in_year(3)[OF k D] by (simp add: last_year_facts)
    have sd: "setDate (Date_of_Date (Some t)) 13
        = TimeClip (MakeDate (MakeDay 275760 (MonthFromTime t) 13) tw)"
      by (simp add: setDate_def Date_of_Date_def LocalTime_def UTC_def Y tw_def)
    have Mc: "MonthFromTime t = 5 \<or> MonthFromTime t = 6 \<or> MonthFromTime t = 7
        \<or> MonthFromTime t = 8"
      using lo hi by (simp add: MonthFromTime_def Let_def dwy l)
    have fc: "getNextFridayThe13th n (Some t) =
       (if WeekDay (MakeDate (MakeDay 275760 (MonthFromTime t) 13) tw) = 5
           \<and> t \<le> MakeDate (MakeDay 275760 (MonthFromTime t) 13) tw
        then Some (Some (MakeDate (MakeDay 275760 (MonthFromTime t) 13) tw))
        else case n of 0 \<Rightarrow> None
             | Suc k \<Rightarrow> getNextFridayThe13th k
                 (TimeClip (MakeDate (MakeDay 275760 (MonthFromTime t + 1) 13) tw)))"
      if "\<bar>MakeDate (MakeDay 275760 (MonthFromTime t) 13) tw\<bar> \<le> 8640000000000000"
      using first_call[of t n] that unfolding Y tw_def by blast
    from Mc show ?thesis
    proof (elim disjE)
      assume M: "MonthFromTime t = 5"
      have v5: "\<bar>MakeDate (MakeDay 275760 5 13) tw\<bar> \<le> 8640000000000000"
        using tw by (intro valid_of_day) (simp_all add: searchable_days)
      have v6: "\<bar>MakeDate (MakeDay 275760 6 13) tw\<bar> \<le> 8640000000000000"
        using tw by (intro valid_of_day) (simp_all add: last_year_days)
      have "MakeDay 275760 5 13 < Day t" using lo by (simp add: searchable_days)
      then have "MakeDate (MakeDay 275760 5 13) tw < MakeDate (Day t) tw"
        by (rule MakeDate_less[OF tw tw])
      then have "\<not> t \<le> MakeDate (MakeDay 275760 5 13) tw"
        using ts by (simp add: MakeDate_def)
      then show ?thesis
        using fc v5
        by (simp add: M TimeClip_Some[OF v6] never_from_july_275760[OF tw] split: nat.split)
    next
      assume M: "MonthFromTime t = 6"
      have v6: "\<bar>MakeDate (MakeDay 275760 6 13) tw\<bar> \<le> 8640000000000000"
        using tw by (intro valid_of_day) (simp_all add: last_year_days)
      have v7: "\<bar>MakeDate (MakeDay 275760 7 13) tw\<bar> \<le> 8640000000000000"
        using tw by (intro valid_of_day) (simp_all add: last_year_days)
      show ?thesis
        using fc v6 last_year_facts(6)
        by (simp add: M WeekDay_MakeDate[OF tw] TimeClip_Some[OF v7]
              never_from_august_275760[OF tw] split: nat.split)
    next
      assume M: "MonthFromTime t = 7"
      have v7: "\<bar>MakeDate (MakeDay 275760 7 13) tw\<bar> \<le> 8640000000000000"
        using tw by (intro valid_of_day) (simp_all add: last_year_days)
      show ?thesis
        using fc v7 last_year_facts(5)
        by (simp add: M WeekDay_MakeDate[OF tw] never_from_september_275760[OF tw]
              split: nat.split)
    next
      assume M: "MonthFromTime t = 8"
      show ?thesis
      proof (cases "tw = 0")
        case True
        have v8: "\<bar>MakeDate (MakeDay 275760 8 13) tw\<bar> \<le> 8640000000000000"
          using True by (simp add: last_year_days MakeDate_def msPerDay_def)
        have nx: "TimeClip (MakeDate (MakeDay 275760 9 13) tw) = None"
          using tw by (intro invalid_of_day_high) (simp_all add: last_year_days)
        show ?thesis
          using fc v8 last_year_facts(4)
          by (simp add: M WeekDay_MakeDate[OF tw] nx getNextFridayThe13th_invalid
                split: nat.split)
      next
        case False
        have "TimeClip (MakeDate (MakeDay 275760 8 13) tw) = None"
          using tw False by (intro invalid_of_day_high) (simp_all add: last_year_days)
        then have "setDate (Date_of_Date (Some t)) 13 = None" by (simp add: sd M)
        then show ?thesis by (rule never_after_invalid_setDate)
      qed
    qed
  qed
qed

text \<open>
  Claim C7, as stated, fails at the last representable Date, 13 September 275760 (a
  Saturday): the 13th of the next month is out of range, the Date becomes invalid, and
  from then on every call recurses; no bound on the depth yields a result.
\<close>

theorem getNextFridayThe13th_at_max_never_returns:
  "\<forall>n. getNextFridayThe13th n (Some 8640000000000000) = None"
proof
  fix n
  let ?t = "8640000000000000 :: int"
  have sd: "setDate (Date_of_Date (Some ?t)) 13 = Some ?t" by code_simp
  have gd: "getDay (Some ?t) = Some 6" by code_simp
  have sm: "setMonth (Some ?t) (Number_add (getMonth (Some ?t)) 1) = None" by code_simp
  show "getNextFridayThe13th n (Some ?t) = None"
    by (subst getNextFridayThe13th.simps)
       (simp add: sd gd sm getNextFridayThe13th_invalid Let_def split: nat.split)
qed

section \<open>The days in a month\<close>

lemma leap_flag_leap_year: "DaysInYear year - 365 = (if leap_year year then 1 else 0)"
  by (simp add: DaysInYear_def leap_year_def)

lemma days_in_calendar_month_DaysInMonth:
  assumes "1 \<le> month" "month \<le> 12"
  shows "days_in_calendar_month month year = DaysInMonth (month - 1) (DaysInYear year - 365)"
proof -
  have "month - 1 = 0 \<or> month - 1 = 1 \<or> month - 1 = 2 \<or> month - 1 = 3 \<or> month - 1 = 4
      \<or> month - 1 = 5 \<or> month - 1 = 6 \<or> month - 1 = 7 \<or> month - 1 = 8 \<or> month - 1 = 9
      \<or> month - 1 = 10 \<or> month - 1 = 11"
    using assms by (intro month_cases) simp_all
  then have "month = 1 \<or> month = 2 \<or> month = 3 \<or> month = 4 \<or> month = 5 \<or> month = 6
      \<or> month = 7 \<or> month = 8 \<or> month = 9 \<or> month = 10 \<or> month = 11 \<or> month = 12"
    by auto
  then show ?thesis
    by (auto simp: days_in_calendar_month_def DaysInMonth_def leap_flag_leap_year)
qed

lemma MakeDay_day_zero:
  assumes "0 \<le> m" "m \<le> 10"
  shows "MakeDay y (m + 1) 0 = MakeDay y m (DaysInMonth m (DaysInYear y - 365))"
proof -
  have a: "(m + 1) div 12 = 0" "(m + 1) mod 12 = m + 1" "m div 12 = 0" "m mod 12 = m"
    using assms by simp_all
  show ?thesis by (simp add: MakeDay_def a MonthStartDay_succ[OF assms])
qed

lemma MakeDay_day_zero_january:
  "MakeDay y 12 0 = MakeDay y 11 (DaysInMonth 11 (DaysInYear y - 365))"
proof -
  have "MakeDay y 12 0 = DayFromYear (y + 1) - 1"
    by (simp add: MakeDay_def MonthStartDay_def)
  also have "\<dots> = DayFromYear y + DaysInYear y - 1" by (simp add: DayFromYear_step)
  also have "\<dots> = MakeDay y 11 (DaysInMonth 11 (DaysInYear y - 365))"
    by (simp add: MakeDay_def MonthStartDay_def DaysInMonth_def)
  finally show ?thesis .
qed

lemma getCountDaysInMonth_index:
  assumes m: "0 \<le> m" "m \<le> 11" and y: "- 271820 \<le> y" "y \<le> 275758"
  shows "getUTCDate (setUTCDate (TimeClip (MakeDate (MakeDay y (m + 1) 1) 0)) 0)
     = Some (DaysInMonth m (DaysInYear y - 365))"
proof -
  let ?t0 = "MakeDate (MakeDay y (m + 1) 1) 0"
  let ?len = "DaysInMonth m (DaysInYear y - 365)"
  let ?t1 = "MakeDate (MakeDay y m ?len) 0"
  have tw: "(0::int) \<le> 0" "0 < msPerDay" by (simp_all add: msPerDay_def)
  have q: "0 \<le> (m + 1) div 12" "(m + 1) div 12 \<le> 1" using m by simp_all
  have yr: "- 271820 \<le> y + (m + 1) div 12" "y + (m + 1) div 12 \<le> 275759"
    using q y by simp_all
  have one: "(1::int) \<le> 1" by simp
  have le1: "1 \<le> DaysInMonth ((m + 1) mod 12) (DaysInYear (y + (m + 1) div 12) - 365)"
    by (rule DaysInMonth_pos[OF leap_flag_cases])
  have v0: "\<bar>?t0\<bar> \<le> 8640000000000000" by (rule MakeDay_in_range[OF yr tw one le1])
  have c0: "TimeWithinDay ?t0 = 0" "YearFromTime ?t0 = y + (m + 1) div 12"
      "MonthFromTime ?t0 = (m + 1) mod 12"
    using MakeDay_civil(2,3,4)[OF tw one le1] by simp_all
  have z: "MakeDay (y + (m + 1) div 12) ((m + 1) mod 12) 0 = MakeDay y m ?len"
  proof (cases "m = 11")
    case True
    then show ?thesis using MakeDay_norm[of y 12 0] MakeDay_day_zero_january[of y] by simp
  next
    case False
    then have "m \<le> 10" using m by simp
    then show ?thesis using MakeDay_norm[of y "m + 1" 0] MakeDay_day_zero[OF m(1), of y] by simp
  qed
  have md: "m div 12 = 0" "m mod 12 = m" using m by simp_all
  have yr1: "- 271820 \<le> y + m div 12" "y + m div 12 \<le> 275759" using y md by simp_all
  have len1: "1 \<le> ?len" by (rule DaysInMonth_pos[OF leap_flag_cases])
  have len2: "?len \<le> DaysInMonth (m mod 12) (DaysInYear (y + m div 12) - 365)"
    by (simp add: md)
  have v1: "\<bar>?t1\<bar> \<le> 8640000000000000" by (rule MakeDay_in_range[OF yr1 tw len1 len2])
  have d1: "DateFromTime ?t1 = ?len" by (rule MakeDay_civil(5)[OF tw len1 len2])
  have "setUTCDate (TimeClip ?t0) 0 = Some ?t1"
    by (simp add: TimeClip_Some[OF v0] setUTCDate_def c0 z TimeClip_Some[OF v1])
  then show ?thesis by (simp add: getUTCDate_def d1)
qed

lemma leap_year_two_digit:
  assumes "1 \<le> y" "y \<le> 99"
  shows "leap_year (1900 + y) = leap_year y"
proof -
  have a: "(1900 + y) mod 4 = y mod 4"
    using mod_mult_self1[of y 475 4] by (simp add: add.commute)
  have b: "(1900 + y) mod 100 = y mod 100"
    using mod_mult_self1[of y 19 100] by (simp add: add.commute)
  have c: "y mod 100 = y" using assms by simp
  show ?thesis using assms by (simp add: leap_year_def a b c)
qed

text \<open>
  The Date constructor reads a year from 0 to 99 as 1900 plus that year; only for year 0
  does this change the length of a month.
\<close>

lemma days_in_calendar_month_MakeFullYear:
  assumes "year \<noteq> 0"
  shows "days_in_calendar_month m (MakeFullYear year) = days_in_calendar_month m year"
proof (cases "1 \<le> year \<and> year \<le> 99")
  case True
  then have "MakeFullYear year = 1900 + year" by (simp add: MakeFullYear_def)
  then show ?thesis using True by (simp add: days_in_calendar_month_def leap_year_two_digit)
next
  case False
  then have "MakeFullYear year = year" using assms by (auto simp: MakeFullYear_def)
  then show ?thesis by simp
qed

lemma getCountDaysInMonth_year_0:
  "getCountDaysInMonth 1 0 = Some 28 \<and> days_in_calendar_month 2 0 = 29"
  by code_simp

text \<open>
  Claim C9. In a UTC environment, getCountDaysInMonth(month, year) with a 1-based month
  from 1 to 11 returns the number of days of calendar month month + 1 of that year, not
  of the requested month; getCountDaysInMonth(1, 2024) is 29, the length of February
  2024, where the documented example promises 31. This holds for every year whose months
  all lie in the range of Date, except year 0, which the Date constructor reads as 1900
  (the source documents the parameter as a four-digit year).
\<close>

theorem getCountDaysInMonth_next_month:
  assumes "1 \<le> month" "month \<le> 11" and "year \<noteq> 0"
    and "- 271820 \<le> year" "year \<le> 275758"
  shows "getCountDaysInMonth month year = Some (days_in_calendar_month (month + 1) year)"
proof -
  define y where "y = MakeFullYear year"
  have yr: "- 271820 \<le> y" "y \<le> 275758"
    using assms(4,5) by (auto simp: y_def MakeFullYear_def)
  have "getCountDaysInMonth month year
      = getUTCDate (setUTCDate (TimeClip (MakeDate (MakeDay y (month + 1) 1) 0)) 0)"
    by (simp add: getCountDaysInMonth_def Date_of_ymd_def y_def UTC_def MakeTime_def)
  also have "\<dots> = Some (DaysInMonth month (DaysInYear y - 365))"
    using assms(1,2) yr by (intro getCountDaysInMonth_index) simp_all
  also have "DaysInMonth month (DaysInYear y - 365) = days_in_calendar_month (month + 1) y"
    using days_in_calendar_month_DaysInMonth[of "month + 1" y] assms(1,2) by simp
  also have "\<dots> = days_in_calendar_month (month + 1) year"
    unfolding y_def by (rule days_in_calendar_month_MakeFullYear[OF assms(3)])
  finally show ?thesis .
qed

theorem getCountDaysInMonth_next_month_witness:
  "getCountDaysInMonth 1 2024 = Some 29 \<and> days_in_calendar_month 1 2024 = 31
   \<and> days_in_calendar_month 2 2024 = 29"
proof -
  have "getCountDaysInMonth 1 2024 = Some (days_in_calendar_month (1 + 1) 2024)"
    by (rule getCountDaysInMonth_next_month) simp_all
  then show ?thesis by (simp add: days_in_calendar_month_def leap_year_def)
qed

section \<open>The name of the day of the week\<close>

lemma WeekDay_range: "0 \<le> WeekDay t \<and> WeekDay t < 7"
  by (simp add: WeekDay_def)

lemma days_nth:
  assumes "0 \<le> w" "w < 7"
  shows "days ! nat w = (if w = 3 then ''Wensday'' else english_day_names ! nat w)"
proof -
  have "w = 0 \<or> w = 1 \<or> w = 2 \<or> w = 3 \<or> w = 4 \<or> w = 5 \<or> w = 6" using assms by arith
  then show ?thesis by (auto simp: days_def english_day_names_def)
qed

text \<open>
  Claim C8. The weekday-name table used by getDayName has exactly one misspelled entry:
  for a date falling on a Wednesday (in UTC) getDayName returns 'Wensday' instead of
  'Wednesday'; for every other weekday it returns the correct English name.
\<close>

theorem getDayName_Wensday:
  "(Date_parse date = Some t \<longrightarrow>
      getDayName Date_parse date
        = Some (if WeekDay t = 3 then ''Wensday'' else english_day_names ! nat (WeekDay t)))
   \<and> english_day_names ! 3 = ''Wednesday'' \<and> ''Wensday'' \<noteq> ''Wednesday''
   \<and> map2 (\<lambda>a b. a = b) days english_day_names = [True, True, True, False, True, True, True]"
proof -
  have "getDayName Date_parse date
      = Some (if WeekDay t = 3 then ''Wensday'' else english_day_names ! nat (WeekDay t))"
    if "Date_parse date = Some t"
    using WeekDay_range[of t] days_nth[of "WeekDay t"] that
    by (simp add: getDayName_def getDay_def LocalTime_def days_def)
  moreover have "english_day_names ! 3 = ''Wednesday''" by (simp add: english_day_names_def)
  moreover have "map2 (\<lambda>a b. a = b) days english_day_names
      = [True, True, True, False, True, True, True]"
    by (simp add: days_def english_day_names_def)
  ultimately show ?thesis by simp
qed

theorem getDayName_Wensday_witness:
  "Date_parse_iso ''2024-01-31T00:00:00.000Z'' = Some 1706659200000
   \<and> WeekDay 1706659200000 = 3
   \<and> getDayName Date_parse_iso ''2024-01-31T00:00:00.000Z'' = Some ''Wensday''
   \<and> Date_parse_iso ''2024-01-30T00:00:00.000Z'' = Some 1706572800000
   \<and> getDayName Date_parse_iso ''2024-01-30T00:00:00.000Z'' = Some ''Tuesday''"
proof -
  have p: "Date_parse_iso ''2024-01-31T00:00:00.000Z'' = Some 1706659200000" by code_simp
  have w: "WeekDay 1706659200000 = 3" by code_simp
  have p2: "Date_parse_iso ''2024-01-30T00:00:00.000Z'' = Some 1706572800000" by code_simp
  have w2: "WeekDay 1706572800000 = 2" by code_simp
  have "getDayName Date_parse_iso ''2024-01-31T00:00:00.000Z'' = Some ''Wensday''"
    using getDayName_Wensday[of Date_parse_iso "''2024-01-31T00:00:00.000Z''" 1706659200000] p w
    by simp
  moreover have "getDayName Date_parse_iso ''2024-01-30T00:00:00.000Z'' = Some ''Tuesday''"
    using getDayName_Wensday[of Date_parse_iso "''2024-01-30T00:00:00.000Z''" 1706572800000] p2 w2
    by (simp add: english_day_names_def)
  ultimately show ?thesis using p w p2 by simp
qed

section \<open>Formatting a date\<close>

lemma plain_append [simp]: "plain (xs @ ys) = (plain xs \<and> plain ys)"
  by (auto simp: plain_def)

lemma plain_Cons [simp]:
  "plain (c # cs) = (c \<noteq> CHR '','' \<and> c \<noteq> CHR '':'' \<and> c \<noteq> CHR '' '' \<and> plain cs)"
  by (auto simp: plain_def)

lemma plain_Nil [simp]: "plain []"
  by (simp add: plain_def)

lemma plain_digit_char:
  "d < 10 \<Longrightarrow> digit_char d \<noteq> CHR '','' \<and> digit_char d \<noteq> CHR '':'' \<and> digit_char d \<noteq> CHR '' ''"
proof -
  assume "d < 10"
  then have "d = 0 \<or> d = 1 \<or> d = 2 \<or> d = 3 \<or> d = 4 \<or> d = 5 \<or> d = 6 \<or> d = 7 \<or> d = 8 \<or> d = 9"
    by arith
  then show ?thesis by (auto simp: digit_char_def)
qed

lemma plain_string_of_nat: "plain (string_of_nat n)"
proof (induction n rule: string_of_nat.induct)
  case (1 n)
  show ?case
  proof (cases "n < 10")
    case True
    then show ?thesis by (subst string_of_nat.simps) (simp add: plain_digit_char)
  next
    case False
    have "n mod 10 < 10" by simp
    then show ?thesis
      using False "1.IH" plain_digit_char[of "n mod 10"] by (subst string_of_nat.simps) simp
  qed
qed

lemma plain_Number_toString: "plain (Number_toString x)"
proof (cases x)
  case None
  then show ?thesis by (simp add: Number_toString_def)
next
  case (Some v)
  then show ?thesis by (simp add: Number_toString_def plain_string_of_nat)
qed

lemma dropWhile_to_char:
  assumes "\<forall>c\<in>set xs. c \<noteq> a"
  shows "dropWhile (\<lambda>c. c \<noteq> a) (xs @ a # ys) = a # ys"
proof -
  have "dropWhile (\<lambda>c. c \<noteq> a) (xs @ a # ys) = dropWhile (\<lambda>c. c \<noteq> a) (a # ys)"
    by (rule dropWhile_append2) (use assms in simp)
  then show ?thesis by simp
qed

lemma takeWhile_to_char:
  assumes "\<forall>c\<in>set xs. c \<noteq> a"
  shows "takeWhile (\<lambda>c. c \<noteq> a) (xs @ a # ys) = xs"
proof -
  have "takeWhile (\<lambda>c. c \<noteq> a) (xs @ a # ys) = takeWhile (\<lambda>c. c \<noteq> a) xs"
    by (rule takeWhile_tail) simp
  then show ?thesis using assms by simp
qed

lemma time_of_formatted_append:
  assumes "plain D"
  shows "time_of_formatted (D @ '', '' @ rest) = rest"
proof -
  have D: "\<forall>c\<in>set D. c \<noteq> CHR '',''" using assms(1) by (simp add: plain_def)
  have "dropWhile (\<lambda>c. c \<noteq> CHR '','') (D @ CHR '','' # (CHR '' '' # rest))
      = CHR '','' # (CHR '' '' # rest)"
    by (rule dropWhile_to_char[OF D])
  then show ?thesis
    by (simp add: time_of_formatted_def)
qed

lemma hour_of_time:
  assumes "plain H"
  shows "takeWhile (\<lambda>c. c \<noteq> CHR '':'') (H @ '':'' @ R) = H"
proof -
  have H: "\<forall>c\<in>set H. c \<noteq> CHR '':''" using assms by (simp add: plain_def)
  show ?thesis using takeWhile_to_char[OF H, of R] by simp
qed

lemma day_period_of_time:
  assumes "\<forall>c\<in>set X. c \<noteq> CHR '' ''"
  shows "drop 1 (dropWhile (\<lambda>c. c \<noteq> CHR '' '') (X @ '' '' @ TD)) = TD"
  using dropWhile_to_char[OF assms, of TD] by simp

lemma formatted_fields:
  assumes "plain D" "plain H" "plain Mi" "plain S"
  shows "hour_field (D @ '', '' @ H @ '':'' @ Mi @ '':'' @ S @ '' '' @ TD) = H"
    and "day_period_field (D @ '', '' @ H @ '':'' @ Mi @ '':'' @ S @ '' '' @ TD) = TD"
proof -
  show "hour_field (D @ '', '' @ H @ '':'' @ Mi @ '':'' @ S @ '' '' @ TD) = H"
    unfolding hour_field_def time_of_formatted_append[OF assms(1)]
    by (rule hour_of_time[OF assms(2)])
  have sp: "\<forall>c\<in>set s. c \<noteq> CHR '' ''" if "plain s" for s
    using that by (simp add: plain_def)
  have X: "\<forall>c\<in>set (H @ '':'' @ Mi @ '':'' @ S). c \<noteq> CHR '' ''"
    using sp[OF assms(2)] sp[OF assms(3)] sp[OF assms(4)] by (simp add: ball_Un)
  have e: "H @ '':'' @ Mi @ '':'' @ S @ '' '' @ TD = (H @ '':'' @ Mi @ '':'' @ S) @ '' '' @ TD"
    by simp
  show "day_period_field (D @ '', '' @ H @ '':'' @ Mi @ '':'' @ S @ '' '' @ TD) = TD"
    unfolding day_period_field_def time_of_formatted_append[OF assms(1)] e
    by (rule day_period_of_time[OF X])
qed


lemma formatDate_fields:
  fixes Date_parse :: "string \<Rightarrow> Date" and date :: string
  defines "x \<equiv> getUTCHours (Date_parse date)"
  shows "hour_field (formatDate Date_parse date)
           = Number_toString (if Number_gt x 12 then Number_sub x 12 else x)"
    and "day_period_field (formatDate Date_parse date)
           = (if Number_ge x 12 then ''PM'' else ''AM'')"
proof -
  define dateFormat where "dateFormat = Date_parse date"
  define D where "D = Number_toString (Number_add (getUTCMonth dateFormat) 1) @ ''/''
      @ Number_toString (getUTCDate dateFormat) @ ''/'' @ Number_toString (getUTCFullYear dateFormat)"
  define H where "H = Number_toString (if Number_gt x 12 then Number_sub x 12 else x)"
  define Mi where "Mi = (if Number_lt (getUTCMinutes dateFormat) 10
      then ''0'' @ Number_toString (getUTCMinutes dateFormat)
      else Number_toString (getUTCMinutes dateFormat))"
  define S where "S = (if Number_lt (getUTCSeconds dateFormat) 10
      then ''0'' @ Number_toString (getUTCSeconds dateFormat)
      else Number_toString (getUTCSeconds dateFormat))"
  define TD where "TD = (if Number_ge x 12 then ''PM'' else ''AM'')"
  have pD: "plain D" by (simp add: D_def plain_Number_toString)
  have pH: "plain H" by (simp add: H_def plain_Number_toString)
  have pMi: "plain Mi" by (simp add: Mi_def plain_Number_toString)
  have pS: "plain S" by (simp add: S_def plain_Number_toString)
  have e: "formatDate Date_parse date = D @ '', '' @ H @ '':'' @ Mi @ '':'' @ S @ '' '' @ TD"
    by (simp add: formatDate_def Let_def D_def H_def Mi_def S_def TD_def x_def dateFormat_def)
  show "hour_field (formatDate Date_parse date)
           = Number_toString (if Number_gt x 12 then Number_sub x 12 else x)"
    unfolding e H_def[symmetric] by (rule formatted_fields(1)[OF pD pH pMi pS])
  show "day_period_field (formatDate Date_parse date)
           = (if Number_ge x 12 then ''PM'' else ''AM'')"
    unfolding e TD_def[symmetric] by (rule formatted_fields(2)[OF pD pH pMi pS])
qed

lemma HourFromTime_range: "0 \<le> HourFromTime t \<and> HourFromTime t < 24"
  by (simp add: HourFromTime_def)

lemma hours_before_noon_strings:
  "list_all (\<lambda>h. Number_toString (Some h) \<noteq> ''12'') [0, 1, 2, 3, 4, 5, 6, 7, 8, 9, 10, 11]"
  by code_simp

lemma hour_before_noon_not_12:
  assumes "0 \<le> h" "h < 12"
  shows "Number_toString (Some h) \<noteq> ''12''"
proof -
  have "h \<in> set [0, 1, 2, 3, 4, 5, 6, 7, 8, 9, 10, 11]" using assms by (intro month_in_list) simp_all
  then show ?thesis using hours_before_noon_strings unfolding list_all_iff by blast
qed

lemma Number_toString_zero: "Number_toString (Some 0) = ''0''"
  by code_simp

text \<open>
  Claim C10. formatDate renders the UTC hour h of its input as h itself when h <= 12 and
  as h - 12 when h > 12, with 'AM' for h < 12 and 'PM' for h >= 12. So every input in
  the midnight hour is formatted with hour '0' and 'AM' (for example
  '2024-02-01T00:30:00.000Z' as '2/1/2024, 0:30:00 AM'), and no input, valid or not, is
  formatted with hour '12' and 'AM'.
\<close>

theorem formatDate_hour_and_day_period:
  "(Date_parse date = Some t \<longrightarrow>
      hour_field (formatDate Date_parse date)
        = Number_toString (Some (if HourFromTime t \<le> 12 then HourFromTime t else HourFromTime t - 12))
      \<and> day_period_field (formatDate Date_parse date)
        = (if HourFromTime t < 12 then ''AM'' else ''PM'')
      \<and> (HourFromTime t = 0 \<longrightarrow>
            hour_field (formatDate Date_parse date) = ''0''
            \<and> day_period_field (formatDate Date_parse date) = ''AM''))
   \<and> \<not> (hour_field (formatDate Date_parse date) = ''12''
         \<and> day_period_field (formatDate Date_parse date) = ''AM'')
   \<and> formatDate Date_parse_iso ''2024-02-01T00:30:00.000Z'' = ''2/1/2024, 0:30:00 AM''"
proof -
  note f = formatDate_fields[of Date_parse date]
  have valid: "hour_field (formatDate Date_parse date)
        = Number_toString (Some (if HourFromTime t \<le> 12 then HourFromTime t else HourFromTime t - 12))
      \<and> day_period_field (formatDate Date_parse date)
        = (if HourFromTime t < 12 then ''AM'' else ''PM'')"
    if "Date_parse date = Some t"
    using f that
    by (auto simp: getUTCHours_def Number_gt_def Number_ge_def Number_sub_def)
  have midnight: "hour_field (formatDate Date_parse date) = ''0''
            \<and> day_period_field (formatDate Date_parse date) = ''AM''"
    if "Date_parse date = Some t" "HourFromTime t = 0"
    using valid[OF that(1)] that(2) by (simp add: Number_toString_zero)
  have never: "\<not> (hour_field (formatDate Date_parse date) = ''12''
         \<and> day_period_field (formatDate Date_parse date) = ''AM'')"
  proof (cases "Date_parse date")
    case None
    have "Number_toString None \<noteq> ''12''" by (simp add: Number_toString_def)
    then show ?thesis using f None by (simp add: getUTCHours_def Number_gt_def)
  next
    case (Some u)
    show ?thesis
    proof (cases "HourFromTime u < 12")
      case True
      then have "Number_toString (Some (HourFromTime u)) \<noteq> ''12''"
        using HourFromTime_range[of u] by (intro hour_before_noon_not_12) simp_all
      then show ?thesis using f Some True
        by (simp add: getUTCHours_def Number_gt_def)
    next
      case False
      then show ?thesis using f Some
        by (simp add: getUTCHours_def Number_ge_def)
    qed
  qed
  have ex: "formatDate Date_parse_iso ''2024-02-01T00:30:00.000Z'' = ''2/1/2024, 0:30:00 AM''"
    by code_simp
  show ?thesis using valid midnight never ex by blast
qed

theorem formatDate_hour_and_day_period_witness:
  "Date_parse_iso ''2024-02-01T00:30:00.000Z'' = Some 1706747400000
   \<and> HourFromTime 1706747400000 = 0
   \<and> hour_field (formatDate Date_parse_iso ''2024-02-01T00:30:00.000Z'') = ''0''
   \<and> day_period_field (formatDate Date_parse_iso ''2024-02-01T00:30:00.000Z'') = ''AM''"
proof -
  have p: "Date_parse_iso ''2024-02-01T00:30:00.000Z'' = Some 1706747400000" by code_simp
  have h: "HourFromTime 1706747400000 = 0" by code_simp
  show ?thesis
    using formatDate_hour_and_day_period
            [of Date_parse_iso "''2024-02-01T00:30:00.000Z''" 1706747400000] p h
    by blast
qed

section \<open>The schedule generator\<close>

text \<open>
  Claim C4. The exported getWorkSchedule is the one unimplemented stub: for every period,
  every countWorkDays and every countOffDays, valid or not, it throws an Error whose
  message is 'Not implemented', and it returns no sequence.
\<close>

theorem getWorkSchedule_not_implemented:
  "getWorkSchedule period countWorkDays countOffDays = Inl (Error ''Not implemented'')
   \<and> (\<forall>xs. getWorkSchedule period countWorkDays countOffDays \<noteq> Inr xs)"
  by (simp add: getWorkSchedule_def)

text \<open>
  Claim C1, at a valid input: for the range 01-01-2024 to 03-01-2024 with two work days
  and one day off, the claim requires the sequence of 1 and 2 January; the exported
  function throws instead.
\<close>

theorem getWorkSchedule_throws_on_valid_range:
  "valid_arguments \<lparr>start = ''01-01-2024'', end' = ''03-01-2024''\<rparr> 2 1
   \<and> getWorkSchedule \<lparr>start = ''01-01-2024'', end' = ''03-01-2024''\<rparr> 2 1
       = Inl (Error ''Not implemented'')
   \<and> getWorkSchedule \<lparr>start = ''01-01-2024'', end' = ''03-01-2024''\<rparr> 2 1
       \<noteq> Inr [''01-01-2024'', ''02-01-2024'']"
proof -
  have "well_formed_date ''01-01-2024''" by code_simp
  moreover have "well_formed_date ''03-01-2024''" by code_simp
  ultimately show ?thesis by (simp add: valid_arguments_def getWorkSchedule_def)
qed

text \<open>
  Claim C2, at the two documented examples: neither call returns the documented
  sequence; both throw.
\<close>

theorem getWorkSchedule_documented_examples_throw:
  "getWorkSchedule \<lparr>start = ''01-01-2024'', end' = ''15-01-2024''\<rparr> 1 3
       = Inl (Error ''Not implemented'')
   \<and> getWorkSchedule \<lparr>start = ''01-01-2024'', end' = ''15-01-2024''\<rparr> 1 3
       \<noteq> Inr [''01-01-2024'', ''05-01-2024'', ''09-01-2024'', ''13-01-2024'']
   \<and> getWorkSchedule \<lparr>start = ''01-01-2024'', end' = ''10-01-2024''\<rparr> 1 1
       = Inl (Error ''Not implemented'')
   \<and> getWorkSchedule \<lparr>start = ''01-01-2024'', end' = ''10-01-2024''\<rparr> 1 1
       \<noteq> Inr [''01-01-2024'', ''03-01-2024'', ''05-01-2024'', ''07-01-2024'', ''09-01-2024'']"
  by (simp add: getWorkSchedule_def)

text \<open>
  Claim C5, at a range whose start lies after its end: the claim requires the empty
  sequence and no error; the exported function throws.
\<close>

theorem getWorkSchedule_throws_on_reversed_range:
  "getWorkSchedule \<lparr>start = ''15-01-2024'', end' = ''01-01-2024''\<rparr> 1 1
       = Inl (Error ''Not implemented'')
   \<and> getWorkSchedule \<lparr>start = ''15-01-2024'', end' = ''01-01-2024''\<rparr> 1 1 \<noteq> Inr []"
  by (simp add: getWorkSchedule_def)

text \<open>
  Claim C3, as stated, fails for workLength = 0: the arguments are invalid, yet the error
  raised is the generic Error 'Not implemented', not InvalidArgument.
\<close>

theorem getWorkSchedule_zero_workLength_not_InvalidArgument:
  "\<not> valid_arguments \<lparr>start = ''01-01-2024'', end' = ''15-01-2024''\<rparr> 0 3
   \<and> getWorkSchedule \<lparr>start = ''01-01-2024'', end' = ''15-01-2024''\<rparr> 0 3
       = Inl (Error ''Not implemented'')
   \<and> getWorkSchedule \<lparr>start = ''01-01-2024'', end' = ''15-01-2024''\<rparr> 0 3
       \<noteq> Inl InvalidArgument"
  by (simp add: valid_arguments_def getWorkSchedule_def)

text \<open>
  Claim C3, as amended. getWorkSchedule validates nothing: its outcome is the same
  whatever the arguments, and it raises InvalidArgument for no input. When workLength < 1,
  or offLength < 0, or an endpoint of the range is not a well-formed calendar date, the
  call fails with the generic Error whose message is 'Not implemented' and returns no
  partial result; in particular so for workLength = 0 with any range.
\<close>

theorem getWorkSchedule_never_InvalidArgument:
  "getWorkSchedule period workLength offLength \<noteq> Inl InvalidArgument
   \<and> (\<not> valid_arguments period workLength offLength \<longrightarrow>
        getWorkSchedule period workLength offLength = Inl (Error ''Not implemented'')
        \<and> (\<forall>xs. getWorkSchedule period workLength offLength \<noteq> Inr xs))
   \<and> getWorkSchedule period 0 offLength = Inl (Error ''Not implemented'')
   \<and> getWorkSchedule period workLength offLength
       = getWorkSchedule period' workLength' offLength'"
  by (simp add: getWorkSchedule_def)

theorem getWorkSchedule_never_InvalidArgument_witness:
  "\<not> valid_arguments \<lparr>start = ''31-02-2024'', end' = ''15-03-2024''\<rparr> 1 (- 1)
   \<and> getWorkSchedule \<lparr>start = ''31-02-2024'', end' = ''15-03-2024''\<rparr> 1 (- 1)
       \<noteq> Inl InvalidArgument
   \<and> getWorkSchedule \<lparr>start = ''31-02-2024'', end' = ''15-03-2024''\<rparr> 1 (- 1)
       = Inl (Error ''Not implemented'')
   \<and> (\<forall>xs. getWorkSchedule \<lparr>start = ''31-02-2024'', end' = ''15-03-2024''\<rparr> 1 (- 1)
         \<noteq> Inr xs)
   \<and> valid_arguments \<lparr>start = ''01-01-2024'', end' = ''15-01-2024''\<rparr> 1 3
   \<and> getWorkSchedule \<lparr>start = ''31-02-2024'', end' = ''15-03-2024''\<rparr> 1 (- 1)
       = getWorkSchedule \<lparr>start = ''01-01-2024'', end' = ''15-01-2024''\<rparr> 1 3"
proof -
  have nv: "\<not> valid_arguments \<lparr>start = ''31-02-2024'', end' = ''15-03-2024''\<rparr> 1 (- 1)"
    by (simp add: valid_arguments_def)
  have "well_formed_date ''01-01-2024''" by code_simp
  moreover have "well_formed_date ''15-01-2024''" by code_simp
  ultimately have v: "valid_arguments \<lparr>start = ''01-01-2024'', end' = ''15-01-2024''\<rparr> 1 3"
    by (simp add: valid_arguments_def)
  show ?thesis
    using nv v getWorkSchedule_never_InvalidArgument
            [of "\<lparr>start = ''31-02-2024'', end' = ''15-03-2024''\<rparr>" 1 "- 1"
                "\<lparr>start = ''01-01-2024'', end' = ''15-01-2024''\<rparr>" 1 3]
    by blast
qed

text \<open>
  The step agrees with the function: what the caller observes is the Error that
  \<open>getWorkSchedule\<close> throws.
\<close>

lemma getWorkSchedule_call_observed:
  "(let (r, env1) = getWorkSchedule_call env period countWorkDays countOffDays
    in observed env1 r = Inl (Some \<lparr>err_name = ''Error'', err_message = ''Not implemented''\<rparr>))
   \<and> getWorkSchedule period countWorkDays countOffDays = Inl (Error ''Not implemented'')"
  by (simp add: getWorkSchedule_call_def new_Error_def observed_def getWorkSchedule_def)

text \<open>
  Claim C6. getWorkSchedule is deterministic and keeps no hidden state: two successive
  calls with identical arguments have identical outcomes, here Error objects of the same
  name and message (two objects, as every \<^verbatim>\<open>new\<close> makes one). The second call alters
  neither the object the first has thrown nor any object or variable that was there
  before, and a call from any other state has the same outcome.
\<close>

theorem getWorkSchedule_deterministic:
  "(let (r1, env1) = getWorkSchedule_call env period countWorkDays countOffDays;
        (r2, env2) = getWorkSchedule_call env1 period countWorkDays countOffDays
    in observed env1 r1 = observed env2 r2
       \<and> observed env2 r1 = observed env1 r1
       \<and> r1 \<noteq> r2
       \<and> globals env1 = globals env \<and> globals env2 = globals env
       \<and> take (length (heap env)) (heap env2) = heap env)
   \<and> (let (r, env1) = getWorkSchedule_call env period countWorkDays countOffDays;
          (r', env1') = getWorkSchedule_call env' period countWorkDays countOffDays
      in observed env1 r = observed env1' r')"
  by (simp add: getWorkSchedule_call_def new_Error_def observed_def nth_append)

end
